theory Spec2Isabelle
  imports Main "HOL-Library.Word"
begin

section \<open>Air liveness analysis (Source/JavaScriptCore/b3/air/AirLiveness.h)\<close>

text \<open>
  The header defines two families of entity adapters (\<open>TmpLivenessAdapter\<close>,
  \<open>StackSlotLivenessAdapter\<close>), the engine \<open>AbstractLiveness<Adapter>\<close> whose constructor
  runs the backward fixed-point computation, and the nested class \<open>LocalCalc\<close> that scans
  one block backwards. C++ \<open>unsigned\<close> is a 32-bit word.
\<close>

type_synonym unsigned = "32 word"

subsection \<open>Operands, instructions, blocks, code\<close>

datatype ArgType = GP | FP

text \<open>
  Modelled from the spec: \<open>Arg::Role\<close> and its classifiers \<open>Arg::isDef\<close>,
  \<open>Arg::isEarlyUse\<close>, \<open>Arg::isLateUse\<close> are declared in AirArg.h, which is not among
  the sources of this development. The spec names the primitive roles \<open>EarlyUse\<close>, \<open>LateUse\<close> and
  \<open>Def\<close> and says that an occurrence may combine use and def; \<open>UseDef\<close> is that combination.
\<close>

datatype Role = EarlyUse | LateUse | Def | UseDef

fun isEarlyUse :: "Role \<Rightarrow> bool" where
  "isEarlyUse EarlyUse = True"
| "isEarlyUse UseDef = True"
| "isEarlyUse _ = False"

fun isLateUse :: "Role \<Rightarrow> bool" where
  "isLateUse LateUse = True"
| "isLateUse _ = False"

fun isDef :: "Role \<Rightarrow> bool" where
  "isDef Def = True"
| "isDef UseDef = True"
| "isDef _ = False"

text \<open>
  An instruction as \<open>Inst::forEach<Thing>\<close> presents it: the occurrences of entities of
  type \<open>Thing\<close>, in order, each with its role and its type tag. \<open>forEach\<close> calls the
  functor on every occurrence; the functors of this header only mutate state captured by
  reference, which is threaded through here.
\<close>

type_synonym 'thing Inst = "('thing \<times> Role \<times> ArgType) list"

definition forEach :: "'thing Inst \<Rightarrow> ('thing \<Rightarrow> Role \<Rightarrow> ArgType \<Rightarrow> 's \<Rightarrow> 's) \<Rightarrow> 's \<Rightarrow> 's" where
  "forEach inst functor s = fold (\<lambda>(thing, role, type). functor thing role type) inst s"

text \<open>
  A basic block: its stable index, its instructions and its predecessors. The engine reads
  a predecessor only through \<open>predecessor->index()\<close> (the key of the index maps and of the
  dirty bits), so a predecessor is recorded as that index.
\<close>

record 'thing BasicBlock =
  index :: nat
  insts :: "'thing Inst list"
  predecessors :: "nat list"

record StackSlot =
  slotIndex :: unsigned

text \<open>
  \<open>Code\<close>: the vector of blocks, where a slot may be null (\<open>code.at(i)\<close> returns a null
  pointer for a removed block and range-for over the code skips it), the stack slots and
  the number of temporaries of each type.
\<close>

record 'thing Code =
  blocks :: "'thing BasicBlock option list"
  stackSlots :: "StackSlot list"
  numTmps :: "ArgType \<Rightarrow> unsigned"

text \<open>
  What the engine takes for granted of its input (the spec: a malformed CFG is a contract
  violation of an upstream pass): the block in slot \<open>i\<close> has index \<open>i\<close>, every block has a
  terminal instruction, and every predecessor is a block of the code.
\<close>

definition wf_code :: "'thing Code \<Rightarrow> bool" where
  "wf_code code =
     list_all (\<lambda>i. case blocks code ! i of
                  None \<Rightarrow> True
                | Some block \<Rightarrow>
                    index block = i \<and> insts block \<noteq> [] \<and>
                    list_all (\<lambda>p. p < length (blocks code) \<and> blocks code ! p \<noteq> None)
                      (predecessors block))
       [0..<length (blocks code)]"

subsection \<open>Adapters\<close>

text \<open>
  The template parameter \<open>Adapter\<close>: its three static members used by the engine.
\<close>

record 'thing Adapter =
  maxIndex :: "'thing Code \<Rightarrow> unsigned"
  acceptsType :: "ArgType \<Rightarrow> bool"
  valueToIndex :: "'thing \<Rightarrow> unsigned"

text \<open>
  \<open>StackSlotLivenessAdapter\<close>. \<open>code.stackSlots().size() - 1\<close> is unsigned arithmetic; the
  result is returned as \<open>unsigned\<close>.
\<close>

definition StackSlotLivenessAdapter :: "StackSlot Adapter" where
  "StackSlotLivenessAdapter =
     \<lparr> maxIndex = (\<lambda>code. word_of_nat (length (stackSlots code)) - 1),
       acceptsType = (\<lambda>type. True),
       valueToIndex = (\<lambda>stackSlot. slotIndex stackSlot) \<rparr>"









subsection \<open>The sparse workset and the hash set of indices\<close>

text \<open>
  Modelled from the spec: \<open>WTF::IndexSparseSet\<close> (wtf/IndexSparseSet.h) is not among the
  sources of this development. The spec: a mutable set of integers; \<open>add\<close> returns true if newly
  inserted, \<open>remove\<close> returns true if the value was present, \<open>clear\<close> empties it, and
  iteration yields the current contents in insertion order. The constructor argument is
  kept as \<open>maxValue\<close>. The engine instantiates it with \<open>UnsafeVectorOverflow\<close>: no operation
  checks a bound.
\<close>

record IndexSparseSet =
  maxValue :: unsigned
  m_values :: "unsigned list"

definition IndexSparseSet_new :: "unsigned \<Rightarrow> IndexSparseSet" where
  "IndexSparseSet_new n = \<lparr> maxValue = n, m_values = [] \<rparr>"

definition IndexSparseSet_add :: "unsigned \<Rightarrow> IndexSparseSet \<Rightarrow> bool \<times> IndexSparseSet" where
  "IndexSparseSet_add v s =
     (if v \<in> set (m_values s) then (False, s) else (True, s\<lparr>m_values := m_values s @ [v]\<rparr>))"

definition IndexSparseSet_remove :: "unsigned \<Rightarrow> IndexSparseSet \<Rightarrow> bool \<times> IndexSparseSet" where
  "IndexSparseSet_remove v s =
     (if v \<in> set (m_values s) then (True, s\<lparr>m_values := removeAll v (m_values s)\<rparr>) else (False, s))"

definition IndexSparseSet_clear :: "IndexSparseSet \<Rightarrow> IndexSparseSet" where
  "IndexSparseSet_clear s = s\<lparr>m_values := []\<rparr>"

definition IndexSparseSet_size :: "IndexSparseSet \<Rightarrow> nat" where
  "IndexSparseSet_size s = length (m_values s)"

definition IndexSparseSet_isEmpty :: "IndexSparseSet \<Rightarrow> bool" where
  "IndexSparseSet_isEmpty s = (m_values s = [])"

text \<open>
  \<open>Adapter::IndexSet\<close> is a \<open>WTF::HashSet<unsigned>\<close>: \<open>add\<close> reports whether the value
  is new. The set is kept as the list of its elements in the order of their insertion,
  which is also the order in which it is iterated here (a hash set promises no order);
  every property below reads it through \<open>set\<close>.
\<close>

type_synonym IndexSet = "unsigned list"

definition HashSet_add :: "unsigned \<Rightarrow> IndexSet \<Rightarrow> bool \<times> IndexSet" where
  "HashSet_add v s = (if v \<in> set s then (False, s) else (True, s @ [v]))"

text \<open>
  Modelled from the spec: \<open>WTF::BitVector\<close> (wtf/BitVector.h) is not among the sources
  of this development. The spec: a dirty flag per block index; a dirty block is processed after
  clearing its flag and a clean one is skipped, so \<open>quickClear\<close> clears the bit and returns
  what it was. \<open>quickSet\<close> sets the bit; the spec does not say what it returns, so the
  result is a function \<open>ret\<close> of the bit before the call, a parameter of the engine.
  \<open>returnsPrevious\<close> is BitVector's own convention (the result of \<open>quickSet\<close> is the bit
  before the call, as for \<open>quickClear\<close>); \<open>returnsChanged\<close> is the reading under which
  the result says that the bit was newly set.
\<close>

type_synonym BitVector = "bool list"

definition quickClear :: "nat \<Rightarrow> BitVector \<Rightarrow> bool \<times> BitVector" where
  "quickClear i v = (v ! i, v[i := False])"

definition quickSet :: "(bool \<Rightarrow> bool) \<Rightarrow> nat \<Rightarrow> BitVector \<Rightarrow> bool \<times> BitVector" where
  "quickSet ret i v = (ret (v ! i), v[i := True])"

definition returnsPrevious :: "bool \<Rightarrow> bool" where
  "returnsPrevious old = old"

definition returnsChanged :: "bool \<Rightarrow> bool" where
  "returnsChanged old = (\<not> old)"

subsection \<open>The engine state and the local backward scan\<close>

text \<open>
  The members of \<open>AbstractLiveness\<close>. The two \<open>IndexMap\<close>s are vectors indexed by
  \<open>block->index()\<close>.
\<close>

record AbstractLiveness =
  m_workset :: IndexSparseSet
  m_liveAtHead :: "unsigned list list"
  m_liveAtTail :: "IndexSet list"

text \<open>
  \<open>LocalCalc::LocalCalc(liveness, block)\<close>: clears the shared workset and adds every index
  of \<open>liveAtTail[block]\<close>. The calculator itself holds only the two references, so the
  constructor is the function from the engine state to the engine state.
\<close>

definition LocalCalc :: "AbstractLiveness \<Rightarrow> 'thing BasicBlock \<Rightarrow> AbstractLiveness" where
  "LocalCalc liveness block =
     (let workset = IndexSparseSet_clear (m_workset liveness);
          liveAtTail = m_liveAtTail liveness ! index block
      in liveness\<lparr>m_workset := fold (\<lambda>i ws. snd (IndexSparseSet_add i ws)) liveAtTail workset\<rparr>)"

text \<open>\<open>LocalCalc::execute(instIndex)\<close>.\<close>

definition execute ::
  "'thing Adapter \<Rightarrow> 'thing BasicBlock \<Rightarrow> nat \<Rightarrow> AbstractLiveness \<Rightarrow> AbstractLiveness" where
  "execute ad block instIndex liveness =
     (let inst = insts block ! instIndex;
          workset = m_workset liveness;
          workset = forEach inst (\<lambda>thing role type ws.
                      if isDef role \<and> acceptsType ad type
                      then snd (IndexSparseSet_remove (valueToIndex ad thing) ws) else ws) workset;
          workset = forEach inst (\<lambda>thing role type ws.
                      if isEarlyUse role \<and> acceptsType ad type
                      then snd (IndexSparseSet_add (valueToIndex ad thing) ws) else ws) workset;
          workset = (if instIndex \<noteq> 0
                     then let prevInst = insts block ! (instIndex - 1)
                          in forEach prevInst (\<lambda>thing role type ws.
                               if isLateUse role \<and> acceptsType ad type
                               then snd (IndexSparseSet_add (valueToIndex ad thing) ws) else ws) workset
                     else workset)
      in liveness\<lparr>m_workset := workset\<rparr>)"

text \<open>
  \<open>LocalCalc::live()\<close>: the current contents of the workset, read only. Iterating the
  result of \<open>live()\<close> applies \<open>indexToValue\<close> to each index; the indices are kept here.
\<close>

definition live :: "AbstractLiveness \<Rightarrow> unsigned list" where
  "live liveness = m_values (m_workset liveness)"

text \<open>
  The scan as the constructor and every consumer run it:
  \<open>LocalCalc localCalc(*this, block); for (size_t instIndex = block->size(); instIndex--;)
  localCalc.execute(instIndex);\<close>
\<close>

definition localScan :: "'thing Adapter \<Rightarrow> AbstractLiveness \<Rightarrow> 'thing BasicBlock \<Rightarrow> AbstractLiveness" where
  "localScan ad liveness block =
     fold (execute ad block) (rev [0..<length (insts block)]) (LocalCalc liveness block)"

subsection \<open>The constructor of \<open>AbstractLiveness\<close>\<close>

text \<open>
  The member initialisers and the first loop: the workset is built from
  \<open>Adapter::maxIndex(code)\<close>, both index maps have \<open>code.size()\<close> empty entries, and the
  late uses of every block's terminal are added to its \<open>liveAtTail\<close>.
\<close>

definition seedBlock :: "'thing Adapter \<Rightarrow> 'thing BasicBlock \<Rightarrow> IndexSet list \<Rightarrow> IndexSet list" where
  "seedBlock ad block tails =
     tails[index block :=
       forEach (last (insts block)) (\<lambda>thing role type liveAtTail.
         if isLateUse role \<and> acceptsType ad type
         then snd (HashSet_add (valueToIndex ad thing) liveAtTail) else liveAtTail)
         (tails ! index block)]"

definition initialLiveness :: "'thing Adapter \<Rightarrow> 'thing Code \<Rightarrow> AbstractLiveness" where
  "initialLiveness ad code =
     \<lparr> m_workset = IndexSparseSet_new (maxIndex ad code),
       m_liveAtHead = replicate (length (blocks code)) [],
       m_liveAtTail =
         fold (\<lambda>slot tails. case slot of None \<Rightarrow> tails | Some block \<Rightarrow> seedBlock ad block tails)
           (blocks code) (replicate (length (blocks code)) []) \<rparr>"

text \<open>
  The state of the fixed-point loop: the engine, the dirty bits and the flag \<open>changed\<close>.
\<close>

record LoopState =
  liveness :: AbstractLiveness
  dirtyBlocks :: BitVector
  changed :: bool

definition initialState :: "'thing Adapter \<Rightarrow> 'thing Code \<Rightarrow> LoopState" where
  "initialState ad code =
     \<lparr> liveness = initialLiveness ad code,
       dirtyBlocks = replicate (length (blocks code)) True,
       changed = False \<rparr>"

text \<open>
  The innermost statement, for one predecessor and one new value:
  \<open>if (liveAtTail.add(newValue)) { if (dirtyBlocks.quickSet(predecessor->index())) changed = true; }\<close>
\<close>

definition addNewValue :: "(bool \<Rightarrow> bool) \<Rightarrow> nat \<Rightarrow> unsigned \<Rightarrow> LoopState \<Rightarrow> LoopState" where
  "addNewValue ret predecessor newValue st =
     (let tails = m_liveAtTail (liveness st);
          (added, liveAtTail) = HashSet_add newValue (tails ! predecessor)
      in if added
         then let (r, dirty) = quickSet ret predecessor (dirtyBlocks st)
              in st\<lparr>liveness := (liveness st)\<lparr>m_liveAtTail := tails[predecessor := liveAtTail]\<rparr>,
                    dirtyBlocks := dirty,
                    changed := (if r then True else changed st)\<rparr>
         else st)"

definition propagate :: "(bool \<Rightarrow> bool) \<Rightarrow> nat list \<Rightarrow> LoopState \<Rightarrow> LoopState" where
  "propagate ret preds st =
     fold (\<lambda>predecessor st. fold (addNewValue ret predecessor) (m_values (m_workset (liveness st))) st)
       preds st"

text \<open>
  The removal of what is already recorded at the head of the block:
  \<open>if (m_workset.size() == liveAtHead.size()) m_workset.clear();
  else { for (unsigned liveIndexAtHead : liveAtHead) m_workset.remove(liveIndexAtHead); }\<close>
\<close>

definition removeKnown :: "unsigned list \<Rightarrow> IndexSparseSet \<Rightarrow> IndexSparseSet" where
  "removeKnown liveAtHead workset =
     (if IndexSparseSet_size workset = length liveAtHead
      then IndexSparseSet_clear workset
      else fold (\<lambda>liveIndexAtHead ws. snd (IndexSparseSet_remove liveIndexAtHead ws)) liveAtHead workset)"

text \<open>The body of the loop over the blocks, for one block index.\<close>

definition processBlock ::
  "(bool \<Rightarrow> bool) \<Rightarrow> 'thing Adapter \<Rightarrow> 'thing Code \<Rightarrow> nat \<Rightarrow> LoopState \<Rightarrow> LoopState" where
  "processBlock ret ad code blockIndex st =
     (case blocks code ! blockIndex of
        None \<Rightarrow> st
      | Some block \<Rightarrow>
          let (wasDirty, dirty) = quickClear blockIndex (dirtyBlocks st)
          in if \<not> wasDirty then st\<lparr>dirtyBlocks := dirty\<rparr>
             else
               let scanned = localScan ad (liveness st) block;
                   liveAtHead = m_liveAtHead scanned ! index block;
                   workset = removeKnown liveAtHead (m_workset scanned);
                   st = st\<lparr>liveness := scanned\<lparr>m_workset := workset\<rparr>, dirtyBlocks := dirty\<rparr>
               in if IndexSparseSet_isEmpty workset then st
                  else
                    let st = st\<lparr>liveness := (liveness st)\<lparr>m_liveAtHead :=
                                 (m_liveAtHead (liveness st))[index block := liveAtHead @ m_values workset]\<rparr>\<rparr>
                    in propagate ret (predecessors block) st)"

text \<open>
  One round of the do/while: \<open>changed = false\<close>, then the blocks in reverse index order.
\<close>

definition pass :: "(bool \<Rightarrow> bool) \<Rightarrow> 'thing Adapter \<Rightarrow> 'thing Code \<Rightarrow> LoopState \<Rightarrow> LoopState" where
  "pass ret ad code st =
     fold (processBlock ret ad code) (rev [0..<length (blocks code)]) (st\<lparr>changed := False\<rparr>)"

text \<open>
  The do/while itself. Whether it ends is not built into the definition: no result is
  \<open>None\<close>.
\<close>

partial_function (option) fixedPoint ::
  "(bool \<Rightarrow> bool) \<Rightarrow> 'thing Adapter \<Rightarrow> 'thing Code \<Rightarrow> LoopState \<Rightarrow> LoopState option" where
  "fixedPoint ret ad code st =
     (let st = pass ret ad code st
      in if changed st then fixedPoint ret ad code st else Some st)"

declare fixedPoint.simps [code]

text \<open>
  The whole constructor: initialisation, the loop, and \<open>m_liveAtHead.clear()\<close>.
\<close>

definition construct ::
  "(bool \<Rightarrow> bool) \<Rightarrow> 'thing Adapter \<Rightarrow> 'thing Code \<Rightarrow> AbstractLiveness option" where
  "construct ret ad code =
     map_option (\<lambda>st. (liveness st)\<lparr>m_liveAtHead := []\<rparr>) (fixedPoint ret ad code (initialState ad code))"

text \<open>
  \<open>m_liveAtTail[block]\<close>, read as a set. The member is private and the class has no
  accessor for it: consumers reach it through \<open>LocalCalc\<close>.
\<close>

definition liveAtTail :: "AbstractLiveness \<Rightarrow> 'thing BasicBlock \<Rightarrow> unsigned set" where
  "liveAtTail l block = set (m_liveAtTail l ! index block)"

subsection \<open>The vocabulary of the properties\<close>

text \<open>
  The indices of the operands of an instruction that have a role of a given kind and a
  type accepted by the adapter, in operand order.
\<close>

definition acceptedIndices :: "(Role \<Rightarrow> bool) \<Rightarrow> 'thing Adapter \<Rightarrow> 'thing Inst \<Rightarrow> unsigned list" where
  "acceptedIndices isRole ad inst =
     map (\<lambda>(thing, role, type). valueToIndex ad thing)
       (filter (\<lambda>(thing, role, type). isRole role \<and> acceptsType ad type) inst)"

text \<open>
  What one step of the local scan does to a live set, and what the whole scan of a block
  makes of the set live at its tail: the set live before its first instruction.
\<close>

definition stepLive :: "'thing Adapter \<Rightarrow> 'thing BasicBlock \<Rightarrow> nat \<Rightarrow> unsigned set \<Rightarrow> unsigned set" where
  "stepLive ad block i W =
     ((W - set (acceptedIndices isDef ad (insts block ! i)))
        \<union> set (acceptedIndices isEarlyUse ad (insts block ! i)))
     \<union> (if i \<noteq> 0 then set (acceptedIndices isLateUse ad (insts block ! (i - 1))) else {})"

definition headLive :: "'thing Adapter \<Rightarrow> 'thing BasicBlock \<Rightarrow> unsigned set \<Rightarrow> unsigned set" where
  "headLive ad block T = fold (stepLive ad block) (rev [0..<length (insts block)]) T"

text \<open>
  The values that the processing of a block finds new at its head: the workset after the
  scan and the removal of what \<open>liveAtHead\<close> already records.
\<close>

definition newValues :: "'thing Adapter \<Rightarrow> AbstractLiveness \<Rightarrow> 'thing BasicBlock \<Rightarrow> unsigned list" where
  "newValues ad l block =
     m_values (removeKnown (m_liveAtHead l ! index block) (m_workset (localScan ad l block)))"

text \<open>
  The indices of all operands of the code that the adapter accepts, whatever their role:
  the entities the analysis can ever meet.
\<close>

definition entityIndices :: "'thing Adapter \<Rightarrow> 'thing Code \<Rightarrow> unsigned list" where
  "entityIndices ad code =
     concat (map (\<lambda>slot. case slot of None \<Rightarrow> []
                           | Some block \<Rightarrow> concat (map (acceptedIndices (\<lambda>role. True) ad) (insts block)))
              (blocks code))"

text \<open>
  The successors of a block: the blocks of the code that list it among their predecessors.
\<close>

definition successors :: "'thing Code \<Rightarrow> 'thing BasicBlock \<Rightarrow> 'thing BasicBlock list" where
  "successors code block =
     concat (map (\<lambda>slot. case slot of None \<Rightarrow> []
                           | Some s \<Rightarrow> if index block \<in> set (predecessors s) then [s] else [])
              (blocks code))"

text \<open>
  The states the constructor passes through between two statements of the loop over the
  blocks: the state after initialisation, the state after \<open>changed = false\<close>, and the state
  after the body of the loop for any block index.
\<close>

inductive reachable ::
  "(bool \<Rightarrow> bool) \<Rightarrow> 'thing Adapter \<Rightarrow> 'thing Code \<Rightarrow> LoopState \<Rightarrow> bool"
  for ret :: "bool \<Rightarrow> bool" and ad :: "'thing Adapter" and code :: "'thing Code" where
  init: "reachable ret ad code (initialState ad code)"
| round: "reachable ret ad code st \<Longrightarrow> reachable ret ad code (st\<lparr>changed := False\<rparr>)"
| block: "reachable ret ad code st \<Longrightarrow> i < length (blocks code) \<Longrightarrow>
          reachable ret ad code (processBlock ret ad code i st)"

subsection \<open>The invariants of the loop\<close>

text \<open>
  The state in which the body of the loop, on a dirty block, reaches the propagation to
  the predecessors: the dirty bit of the block is cleared, the workset holds the new
  values and \<open>liveAtHead\<close> of the block has them appended.
\<close>

definition beforePropagation :: "'thing Adapter \<Rightarrow> 'thing BasicBlock \<Rightarrow> nat \<Rightarrow> LoopState \<Rightarrow> LoopState" where
  "beforePropagation ad b i st =
     st\<lparr>dirtyBlocks := (dirtyBlocks st)[i := False],
        liveness := (liveness st)
               \<lparr>m_workset := removeKnown (m_liveAtHead (liveness st) ! index b)
                               (m_workset (localScan ad (liveness st) b)),
                m_liveAtHead := (m_liveAtHead (liveness st))
                   [index b := m_liveAtHead (liveness st) ! index b @ newValues ad (liveness st) b]\<rparr>\<rparr>"

text \<open>
  The shape of the loop state: the two index maps and the dirty bits have one entry per
  block slot.
\<close>

definition shape :: "'thing Code \<Rightarrow> LoopState \<Rightarrow> bool" where
  "shape code st \<longleftrightarrow>
     length (m_liveAtTail (liveness st)) = length (blocks code) \<and>
     length (m_liveAtHead (liveness st)) = length (blocks code) \<and>
     length (dirtyBlocks st) = length (blocks code)"

text \<open>
  The seed of the tail set of the block in slot \<open>i\<close>: what the first loop of the
  constructor adds to an empty \<open>liveAtTail\<close> for the last instruction of the block.
\<close>

definition seedOf :: "'thing Adapter \<Rightarrow> 'thing Code \<Rightarrow> nat \<Rightarrow> IndexSet" where
  "seedOf ad code i =
     (case blocks code ! i of
        None \<Rightarrow> []
      | Some block \<Rightarrow>
          forEach (last (insts block)) (\<lambda>thing role type liveAtTail.
            if isLateUse role \<and> acceptsType ad type
            then snd (HashSet_add (valueToIndex ad thing) liveAtTail) else liveAtTail) [])"

text \<open>
  The invariant of the loop: the shape, the bound the workset was built with, no
  duplicate in any tail set or head vector, tail sets within the entities of the code,
  and every head vector within what the scan of its block finds live at its head.
\<close>

definition sound :: "'thing Adapter \<Rightarrow> 'thing Code \<Rightarrow> LoopState \<Rightarrow> bool" where
  "sound ad code st \<longleftrightarrow>
     shape code st \<and>
     maxValue (m_workset (liveness st)) = maxIndex ad code \<and>
     (\<forall>i < length (blocks code).
        distinct (m_liveAtTail (liveness st) ! i) \<and>
        distinct (m_liveAtHead (liveness st) ! i) \<and>
        set (m_liveAtTail (liveness st) ! i) \<subseteq> set (entityIndices ad code) \<and>
        (\<forall>b. blocks code ! i = Some b \<longrightarrow>
           set (m_liveAtHead (liveness st) ! i) \<subseteq> set (live (localScan ad (liveness st) b))))"

text \<open>
  The number of values in all tail sets: the quantity that a round of the loop can only
  increase.
\<close>

definition tailTotal :: "'thing Code \<Rightarrow> LoopState \<Rightarrow> nat" where
  "tailTotal code st = (\<Sum>q < length (blocks code). card (set (m_liveAtTail (liveness st) ! q)))"

text \<open>
  The slots of the successors of the block in slot \<open>p\<close>.
\<close>

definition successorSlots :: "'thing Code \<Rightarrow> nat \<Rightarrow> nat list" where
  "successorSlots code p =
     filter (\<lambda>s. case blocks code ! s of None \<Rightarrow> False | Some b \<Rightarrow> p \<in> set (predecessors b))
       [0..<length (blocks code)]"

text \<open>
  Every tail set is its seed united with the head vectors of the successors.
\<close>

definition balanced :: "'thing Adapter \<Rightarrow> 'thing Code \<Rightarrow> LoopState \<Rightarrow> bool" where
  "balanced ad code st \<longleftrightarrow>
     (\<forall>p < length (blocks code).
        set (m_liveAtTail (liveness st) ! p) =
          set (seedOf ad code p) \<union>
          (\<Union>s \<in> set (successorSlots code p). set (m_liveAtHead (liveness st) ! s)))"

text \<open>
  The head vector of a block that is not dirty is what the scan of the block finds live
  at its head.
\<close>

definition settled :: "'thing Adapter \<Rightarrow> 'thing Code \<Rightarrow> LoopState \<Rightarrow> bool" where
  "settled ad code st \<longleftrightarrow>
     (\<forall>i < length (blocks code). \<forall>b. blocks code ! i = Some b \<longrightarrow> \<not> dirtyBlocks st ! i \<longrightarrow>
        set (m_liveAtHead (liveness st) ! i) = set (live (localScan ad (liveness st) b)))"

text \<open>
  No block in a slot from \<open>k\<close> on is dirty.
\<close>

definition cleanFrom :: "'thing Code \<Rightarrow> nat \<Rightarrow> LoopState \<Rightarrow> bool" where
  "cleanFrom code k st \<longleftrightarrow>
     (\<forall>q < length (blocks code). k \<le> q \<longrightarrow> blocks code ! q \<noteq> None \<longrightarrow> \<not> dirtyBlocks st ! q)"

subsection \<open>Concrete inputs\<close>

text \<open>
  Small inputs over stack slots on which the theorems below are instantiated.
\<close>

definition slot0 :: StackSlot where "slot0 = \<lparr> slotIndex = 0 \<rparr>"
definition slot1 :: StackSlot where "slot1 = \<lparr> slotIndex = 1 \<rparr>"

definition emptyLiveness :: AbstractLiveness where
  "emptyLiveness = \<lparr> m_workset = IndexSparseSet_new 1, m_liveAtHead = [[]], m_liveAtTail = [[]] \<rparr>"

definition defLateBlock :: "StackSlot BasicBlock" where
  "defLateBlock = \<lparr> index = 0,
                    insts = [[(slot0, Def, GP), (slot0, LateUse, GP)], [(slot1, Def, GP)]],
                    predecessors = [] \<rparr>"

definition chainBlock0 :: "StackSlot BasicBlock" where
  "chainBlock0 = \<lparr> index = 0,
                   insts = [[(slot0, Def, GP)], [(slot1, LateUse, GP)]],
                   predecessors = [] \<rparr>"

definition chainBlock1 :: "StackSlot BasicBlock" where
  "chainBlock1 = \<lparr> index = 1,
                   insts = [[(slot0, EarlyUse, GP)], [(slot0, LateUse, GP)]],
                   predecessors = [0] \<rparr>"

definition chainCode :: "StackSlot Code" where
  "chainCode = \<lparr> blocks = [Some chainBlock0, Some chainBlock1],
                 stackSlots = [slot0, slot1],
                 numTmps = (\<lambda>type. 0) \<rparr>"

definition emptyCode :: "StackSlot Code" where
  "emptyCode = \<lparr> blocks = [], stackSlots = [], numTmps = (\<lambda>type. 0) \<rparr>"

definition reverseBlock0 :: "StackSlot BasicBlock" where
  "reverseBlock0 = \<lparr> index = 0, insts = [[(slot0, Def, GP)], []], predecessors = [] \<rparr>"

definition reverseBlock1 :: "StackSlot BasicBlock" where
  "reverseBlock1 = \<lparr> index = 1, insts = [[(slot0, EarlyUse, GP)], []], predecessors = [2] \<rparr>"

definition reverseBlock2 :: "StackSlot BasicBlock" where
  "reverseBlock2 = \<lparr> index = 2, insts = [[]], predecessors = [0] \<rparr>"

definition reverseCode :: "StackSlot Code" where
  "reverseCode = \<lparr> blocks = [Some reverseBlock0, Some reverseBlock1, Some reverseBlock2],
                   stackSlots = [slot0],
                   numTmps = (\<lambda>type. 0) \<rparr>"

definition reverseResult :: AbstractLiveness where
  "reverseResult = \<lparr> m_workset = \<lparr> maxValue = 0, m_values = [] \<rparr>,
                     m_liveAtHead = [],
                     m_liveAtTail = [[], [], [0]] \<rparr>"


section \<open>The workset and the local scan\<close>

lemma values_add [simp]:
  "m_values (snd (IndexSparseSet_add v s)) = (if v \<in> set (m_values s) then m_values s else m_values s @ [v])"
  by (simp add: IndexSparseSet_add_def)

lemma values_remove [simp]:
  "m_values (snd (IndexSparseSet_remove v s)) = removeAll v (m_values s)"
  by (simp add: IndexSparseSet_remove_def)

lemma maxValue_add [simp]: "maxValue (snd (IndexSparseSet_add v s)) = maxValue s"
  by (simp add: IndexSparseSet_add_def)

lemma maxValue_remove [simp]: "maxValue (snd (IndexSparseSet_remove v s)) = maxValue s"
  by (simp add: IndexSparseSet_remove_def)

lemma values_clear [simp]: "m_values (IndexSparseSet_clear s) = []"
  by (simp add: IndexSparseSet_clear_def)

lemma maxValue_clear [simp]: "maxValue (IndexSparseSet_clear s) = maxValue s"
  by (simp add: IndexSparseSet_clear_def)

lemma set_forEach_add:
  "set (m_values (forEach inst (\<lambda>thing role type ws.
          if isRole role \<and> acceptsType ad type
          then snd (IndexSparseSet_add (valueToIndex ad thing) ws) else ws) s))
   = set (m_values s) \<union> set (acceptedIndices isRole ad inst)"
  unfolding forEach_def acceptedIndices_def
  by (induction inst arbitrary: s) (auto split: prod.splits)

lemma set_forEach_remove:
  "set (m_values (forEach inst (\<lambda>thing role type ws.
          if isRole role \<and> acceptsType ad type
          then snd (IndexSparseSet_remove (valueToIndex ad thing) ws) else ws) s))
   = set (m_values s) - set (acceptedIndices isRole ad inst)"
  unfolding forEach_def acceptedIndices_def
  by (induction inst arbitrary: s) (auto split: prod.splits)

lemma distinct_forEach_add:
  "distinct (m_values s) \<Longrightarrow>
   distinct (m_values (forEach inst (\<lambda>thing role type ws.
          if isRole role \<and> acceptsType ad type
          then snd (IndexSparseSet_add (valueToIndex ad thing) ws) else ws) s))"
  unfolding forEach_def
  by (induction inst arbitrary: s) (auto split: prod.splits)

lemma distinct_forEach_remove:
  "distinct (m_values s) \<Longrightarrow>
   distinct (m_values (forEach inst (\<lambda>thing role type ws.
          if isRole role \<and> acceptsType ad type
          then snd (IndexSparseSet_remove (valueToIndex ad thing) ws) else ws) s))"
  unfolding forEach_def
  by (induction inst arbitrary: s) (auto split: prod.splits simp: distinct_removeAll)

lemma set_live_execute:
  "set (live (execute ad block i l)) = stepLive ad block i (set (live l))"
  by (simp add: live_def execute_def Let_def stepLive_def set_forEach_add set_forEach_remove)

lemma distinct_live_execute:
  "distinct (live l) \<Longrightarrow> distinct (live (execute ad block i l))"
  by (simp add: live_def execute_def Let_def distinct_forEach_add distinct_forEach_remove)

lemma liveAtTail_execute [simp]: "m_liveAtTail (execute ad block i l) = m_liveAtTail l"
  by (simp add: execute_def Let_def)

lemma liveAtHead_execute [simp]: "m_liveAtHead (execute ad block i l) = m_liveAtHead l"
  by (simp add: execute_def Let_def)

lemma liveAtTail_LocalCalc [simp]: "m_liveAtTail (LocalCalc l block) = m_liveAtTail l"
  by (simp add: LocalCalc_def Let_def)

lemma liveAtHead_LocalCalc [simp]: "m_liveAtHead (LocalCalc l block) = m_liveAtHead l"
  by (simp add: LocalCalc_def Let_def)

lemma fold_execute_frame:
  "m_liveAtTail (fold (execute ad block) is l) = m_liveAtTail l \<and>
   m_liveAtHead (fold (execute ad block) is l) = m_liveAtHead l"
  by (induction "is" arbitrary: l) auto

lemma liveAtTail_localScan [simp]: "m_liveAtTail (localScan ad l block) = m_liveAtTail l"
  by (simp add: localScan_def fold_execute_frame)

lemma liveAtHead_localScan [simp]: "m_liveAtHead (localScan ad l block) = m_liveAtHead l"
  by (simp add: localScan_def fold_execute_frame)

lemma values_fold_add:
  "set (m_values (fold (\<lambda>i ws. snd (IndexSparseSet_add i ws)) xs s)) = set (m_values s) \<union> set xs"
  by (induction xs arbitrary: s) auto

lemma distinct_fold_add:
  "distinct (m_values s) \<Longrightarrow> distinct (m_values (fold (\<lambda>i ws. snd (IndexSparseSet_add i ws)) xs s))"
  by (induction xs arbitrary: s) auto

lemma maxValue_fold_add [simp]:
  "maxValue (fold (\<lambda>i ws. snd (IndexSparseSet_add i ws)) xs s) = maxValue s"
  by (induction xs arbitrary: s) auto

lemma values_fold_remove:
  "m_values (fold (\<lambda>i ws. snd (IndexSparseSet_remove i ws)) xs s) = filter (\<lambda>v. v \<notin> set xs) (m_values s)"
proof (induction xs arbitrary: s)
  case Nil
  then show ?case by simp
next
  case (Cons x xs)
  have "filter (\<lambda>v. v \<notin> set xs) (removeAll x (m_values s)) = filter (\<lambda>v. v \<notin> set (x # xs)) (m_values s)"
    by (auto simp: removeAll_filter_not_eq intro: filter_cong)
  with Cons show ?case by simp
qed

lemma maxValue_fold_remove [simp]:
  "maxValue (fold (\<lambda>i ws. snd (IndexSparseSet_remove i ws)) xs s) = maxValue s"
  by (induction xs arbitrary: s) auto

lemma set_live_LocalCalc: "set (live (LocalCalc l block)) = set (m_liveAtTail l ! index block)"
  by (simp add: live_def LocalCalc_def Let_def values_fold_add)

lemma distinct_live_LocalCalc: "distinct (live (LocalCalc l block))"
  by (simp add: live_def LocalCalc_def Let_def distinct_fold_add)

lemma set_live_fold_execute:
  "set (live (fold (execute ad block) js l)) = fold (stepLive ad block) js (set (live l))"
  by (induction js arbitrary: l) (auto simp: set_live_execute)

lemma distinct_live_fold_execute:
  "distinct (live l) \<Longrightarrow> distinct (live (fold (execute ad block) js l))"
  by (induction js arbitrary: l) (auto simp: distinct_live_execute)

lemma set_live_localScan:
  "set (live (localScan ad l block)) = headLive ad block (set (m_liveAtTail l ! index block))"
  by (simp add: localScan_def headLive_def set_live_fold_execute set_live_LocalCalc)

lemma distinct_live_localScan: "distinct (live (localScan ad l block))"
  by (simp add: localScan_def distinct_live_fold_execute distinct_live_LocalCalc)

lemma stepLive_mono: "S \<subseteq> T \<Longrightarrow> stepLive ad block i S \<subseteq> stepLive ad block i T"
  by (auto simp: stepLive_def)

lemma fold_stepLive_mono:
  "S \<subseteq> T \<Longrightarrow> fold (stepLive ad block) js S \<subseteq> fold (stepLive ad block) js T"
  by (induction js arbitrary: S T) (auto intro: stepLive_mono)

lemma headLive_mono: "S \<subseteq> T \<Longrightarrow> headLive ad block S \<subseteq> headLive ad block T"
  unfolding headLive_def by (rule fold_stepLive_mono)

section \<open>The propagation to the predecessors\<close>

lemma addNewValue_frame [simp]:
  "m_workset (liveness (addNewValue ret p v st)) = m_workset (liveness st)"
  "m_liveAtHead (liveness (addNewValue ret p v st)) = m_liveAtHead (liveness st)"
  by (simp_all add: addNewValue_def HashSet_add_def quickSet_def Let_def)

lemma addNewValue_tails:
  "m_liveAtTail (liveness (addNewValue ret p v st)) =
     (m_liveAtTail (liveness st))[p := (if v \<in> set (m_liveAtTail (liveness st) ! p)
                                       then m_liveAtTail (liveness st) ! p
                                       else m_liveAtTail (liveness st) ! p @ [v])]"
  by (simp add: addNewValue_def HashSet_add_def quickSet_def Let_def)

lemma addNewValue_dirty:
  "dirtyBlocks (addNewValue ret p v st) =
     (if v \<in> set (m_liveAtTail (liveness st) ! p) then dirtyBlocks st else (dirtyBlocks st)[p := True])"
  by (simp add: addNewValue_def HashSet_add_def quickSet_def Let_def)

lemma addNewValue_changed:
  "changed (addNewValue ret p v st) =
     (changed st \<or> (v \<notin> set (m_liveAtTail (liveness st) ! p) \<and> ret (dirtyBlocks st ! p)))"
  by (simp add: addNewValue_def HashSet_add_def quickSet_def Let_def)

lemma fold_addNewValue_frame [simp]:
  "m_workset (liveness (fold (addNewValue ret p) vs st)) = m_workset (liveness st)"
  "m_liveAtHead (liveness (fold (addNewValue ret p) vs st)) = m_liveAtHead (liveness st)"
  by (induction vs arbitrary: st) simp_all

lemma fold_addNewValue_length [simp]:
  "length (m_liveAtTail (liveness (fold (addNewValue ret p) vs st))) = length (m_liveAtTail (liveness st))"
  "length (dirtyBlocks (fold (addNewValue ret p) vs st)) = length (dirtyBlocks st)"
  by (induction vs arbitrary: st) (simp_all add: addNewValue_tails addNewValue_dirty)

lemma fold_addNewValue_other:
  "q \<noteq> p \<Longrightarrow>
   m_liveAtTail (liveness (fold (addNewValue ret p) vs st)) ! q = m_liveAtTail (liveness st) ! q"
  "q \<noteq> p \<Longrightarrow> dirtyBlocks (fold (addNewValue ret p) vs st) ! q = dirtyBlocks st ! q"
  by (induction vs arbitrary: st) (simp_all add: addNewValue_tails addNewValue_dirty)

lemma fold_addNewValue_set:
  "p < length (m_liveAtTail (liveness st)) \<Longrightarrow>
   set (m_liveAtTail (liveness (fold (addNewValue ret p) vs st)) ! p) =
     set (m_liveAtTail (liveness st) ! p) \<union> set vs"
  by (induction vs arbitrary: st) (auto simp: addNewValue_tails)

lemma fold_addNewValue_distinct:
  "p < length (m_liveAtTail (liveness st)) \<Longrightarrow> distinct (m_liveAtTail (liveness st) ! p) \<Longrightarrow>
   distinct (m_liveAtTail (liveness (fold (addNewValue ret p) vs st)) ! p)"
  by (induction vs arbitrary: st) (auto simp: addNewValue_tails)

lemma fold_addNewValue_dirty:
  "p < length (m_liveAtTail (liveness st)) \<Longrightarrow> p < length (dirtyBlocks st) \<Longrightarrow>
   dirtyBlocks (fold (addNewValue ret p) vs st) ! p =
     (dirtyBlocks st ! p \<or> \<not> set vs \<subseteq> set (m_liveAtTail (liveness st) ! p))"
  by (induction vs arbitrary: st) (auto simp: addNewValue_tails addNewValue_dirty)

lemma fold_addNewValue_changed_mono:
  "changed st \<Longrightarrow> changed (fold (addNewValue ret p) vs st)"
  by (induction vs arbitrary: st) (auto simp: addNewValue_changed)

lemma fold_addNewValue_changed:
  "p < length (m_liveAtTail (liveness st)) \<Longrightarrow>
   changed (fold (addNewValue ret p) vs st) \<Longrightarrow>
   changed st \<or> \<not> set vs \<subseteq> set (m_liveAtTail (liveness st) ! p)"
proof (induction vs arbitrary: st)
  case Nil
  then show ?case by simp
next
  case (Cons v vs)
  let ?st = "addNewValue ret p v st"
  from Cons.prems have "changed ?st \<or> \<not> set vs \<subseteq> set (m_liveAtTail (liveness ?st) ! p)"
    using Cons.IH [of ?st] by (simp add: addNewValue_tails)
  with Cons.prems show ?case
    by (auto simp: addNewValue_tails addNewValue_changed split: if_splits)
qed

lemma fold_addNewValue_returnsChanged:
  "p < length (m_liveAtTail (liveness st)) \<Longrightarrow> p < length (dirtyBlocks st) \<Longrightarrow>
   changed (fold (addNewValue returnsChanged p) vs st) =
     (changed st \<or> (\<not> set vs \<subseteq> set (m_liveAtTail (liveness st) ! p) \<and> \<not> dirtyBlocks st ! p))"
  by (induction vs arbitrary: st)
     (auto simp: addNewValue_tails addNewValue_changed addNewValue_dirty returnsChanged_def split: if_splits)

lemma propagate_Nil [simp]: "propagate ret [] st = st"
  by (simp add: propagate_def)

lemma propagate_Cons:
  "propagate ret (p # ps) st =
     propagate ret ps (fold (addNewValue ret p) (m_values (m_workset (liveness st))) st)"
  by (simp add: propagate_def)

lemma propagate_frame [simp]:
  "m_workset (liveness (propagate ret ps st)) = m_workset (liveness st)"
  "m_liveAtHead (liveness (propagate ret ps st)) = m_liveAtHead (liveness st)"
  "length (m_liveAtTail (liveness (propagate ret ps st))) = length (m_liveAtTail (liveness st))"
  "length (dirtyBlocks (propagate ret ps st)) = length (dirtyBlocks st)"
  by (induction ps arbitrary: st) (simp_all add: propagate_Cons)

lemma propagate_other:
  "q \<notin> set ps \<Longrightarrow>
   m_liveAtTail (liveness (propagate ret ps st)) ! q = m_liveAtTail (liveness st) ! q"
  "q \<notin> set ps \<Longrightarrow> dirtyBlocks (propagate ret ps st) ! q = dirtyBlocks st ! q"
  by (induction ps arbitrary: st) (simp_all add: propagate_Cons fold_addNewValue_other)

lemma propagate_set:
  "\<forall>p \<in> set ps. p < length (m_liveAtTail (liveness st)) \<Longrightarrow> q \<in> set ps \<Longrightarrow>
   set (m_liveAtTail (liveness (propagate ret ps st)) ! q) =
     set (m_liveAtTail (liveness st) ! q) \<union> set (m_values (m_workset (liveness st)))"
proof (induction ps arbitrary: st)
  case Nil
  then show ?case by simp
next
  case (Cons p ps)
  let ?st = "fold (addNewValue ret p) (m_values (m_workset (liveness st))) st"
  show ?case
  proof (cases "q \<in> set ps")
    case True
    with Cons.prems have "set (m_liveAtTail (liveness (propagate ret ps ?st)) ! q) =
        set (m_liveAtTail (liveness ?st) ! q) \<union> set (m_values (m_workset (liveness ?st)))"
      by (intro Cons.IH) simp_all
    moreover have "set (m_liveAtTail (liveness ?st) ! q) \<union> set (m_values (m_workset (liveness st)))
        = set (m_liveAtTail (liveness st) ! q) \<union> set (m_values (m_workset (liveness st)))"
      using Cons.prems by (cases "q = p") (auto simp: fold_addNewValue_set fold_addNewValue_other)
    ultimately show ?thesis by (simp add: propagate_Cons)
  next
    case False
    with Cons.prems have "q = p" by simp
    with False Cons.prems show ?thesis
      by (simp add: propagate_Cons propagate_other fold_addNewValue_set)
  qed
qed

lemma propagate_distinct:
  "\<forall>p \<in> set ps. p < length (m_liveAtTail (liveness st)) \<Longrightarrow>
   distinct (m_liveAtTail (liveness st) ! q) \<Longrightarrow>
   distinct (m_liveAtTail (liveness (propagate ret ps st)) ! q)"
proof (induction ps arbitrary: st)
  case Nil
  then show ?case by simp
next
  case (Cons p ps)
  let ?st = "fold (addNewValue ret p) (m_values (m_workset (liveness st))) st"
  have "distinct (m_liveAtTail (liveness ?st) ! q)"
    using Cons.prems by (cases "q = p") (auto simp: fold_addNewValue_distinct fold_addNewValue_other)
  with Cons.prems show ?case
    by (simp add: propagate_Cons Cons.IH)
qed

lemma propagate_dirty:
  "\<forall>p \<in> set ps. p < length (m_liveAtTail (liveness st)) \<and> p < length (dirtyBlocks st) \<Longrightarrow>
   q \<in> set ps \<Longrightarrow>
   dirtyBlocks (propagate ret ps st) ! q =
     (dirtyBlocks st ! q \<or>
      \<not> set (m_values (m_workset (liveness st))) \<subseteq> set (m_liveAtTail (liveness st) ! q))"
proof (induction ps arbitrary: st)
  case Nil
  then show ?case by simp
next
  case (Cons p ps)
  let ?st = "fold (addNewValue ret p) (m_values (m_workset (liveness st))) st"
  show ?case
  proof (cases "q \<in> set ps")
    case True
    with Cons.prems have "dirtyBlocks (propagate ret ps ?st) ! q =
        (dirtyBlocks ?st ! q \<or>
         \<not> set (m_values (m_workset (liveness ?st))) \<subseteq> set (m_liveAtTail (liveness ?st) ! q))"
      by (intro Cons.IH) simp_all
    moreover have "(dirtyBlocks ?st ! q \<or>
         \<not> set (m_values (m_workset (liveness st))) \<subseteq> set (m_liveAtTail (liveness ?st) ! q))
        = (dirtyBlocks st ! q \<or>
      \<not> set (m_values (m_workset (liveness st))) \<subseteq> set (m_liveAtTail (liveness st) ! q))"
      using Cons.prems
      by (cases "q = p") (auto simp: fold_addNewValue_set fold_addNewValue_other fold_addNewValue_dirty)
    ultimately show ?thesis by (simp add: propagate_Cons)
  next
    case False
    with Cons.prems have "q = p" by simp
    with False Cons.prems show ?thesis
      by (simp add: propagate_Cons propagate_other fold_addNewValue_dirty)
  qed
qed

lemma propagate_changed_mono: "changed st \<Longrightarrow> changed (propagate ret ps st)"
  by (induction ps arbitrary: st) (simp_all add: propagate_Cons fold_addNewValue_changed_mono)

lemma propagate_changed:
  "\<forall>p \<in> set ps. p < length (m_liveAtTail (liveness st)) \<Longrightarrow>
   changed (propagate ret ps st) \<Longrightarrow>
   changed st \<or> (\<exists>q \<in> set ps.
      \<not> set (m_values (m_workset (liveness st))) \<subseteq> set (m_liveAtTail (liveness st) ! q))"
proof (induction ps arbitrary: st)
  case Nil
  then show ?case by simp
next
  case (Cons p ps)
  let ?D = "set (m_values (m_workset (liveness st)))"
  let ?st = "fold (addNewValue ret p) (m_values (m_workset (liveness st))) st"
  from Cons.prems have "changed ?st \<or> (\<exists>q \<in> set ps. \<not> ?D \<subseteq> set (m_liveAtTail (liveness ?st) ! q))"
    using Cons.IH [of ?st] by (simp add: propagate_Cons)
  then show ?case
  proof
    assume "changed ?st"
    with Cons.prems show ?thesis
      using fold_addNewValue_changed [of p st ret "m_values (m_workset (liveness st))"] by auto
  next
    assume "\<exists>q \<in> set ps. \<not> ?D \<subseteq> set (m_liveAtTail (liveness ?st) ! q)"
    then obtain q where q: "q \<in> set ps" "\<not> ?D \<subseteq> set (m_liveAtTail (liveness ?st) ! q)" by blast
    with Cons.prems have "\<not> ?D \<subseteq> set (m_liveAtTail (liveness st) ! q)"
      by (cases "q = p") (auto simp: fold_addNewValue_set fold_addNewValue_other)
    with q show ?thesis by auto
  qed
qed

section \<open>The local scan: step order, frame, idempotence\<close>

lemma values_forEach_add_cong:
  assumes "m_values s = m_values s'"
  shows "m_values (forEach inst (\<lambda>thing role type ws.
          if isRole role \<and> acceptsType ad type
          then snd (IndexSparseSet_add (valueToIndex ad thing) ws) else ws) s)
   = m_values (forEach inst (\<lambda>thing role type ws.
          if isRole role \<and> acceptsType ad type
          then snd (IndexSparseSet_add (valueToIndex ad thing) ws) else ws) s')"
  using assms unfolding forEach_def
proof (induction inst arbitrary: s s')
  case Nil
  then show ?case by simp
next
  case (Cons x inst)
  obtain thing role type where x: "x = (thing, role, type)"
    by (cases x) auto
  let ?g = "\<lambda>ws. if isRole role \<and> acceptsType ad type
          then snd (IndexSparseSet_add (valueToIndex ad thing) ws) else ws"
  have "m_values (?g s) = m_values (?g s')"
    by (simp add: Cons.prems)
  then have "m_values (fold (\<lambda>(thing, role, type) ws. if isRole role \<and> acceptsType ad type
          then snd (IndexSparseSet_add (valueToIndex ad thing) ws) else ws) inst (?g s)) =
      m_values (fold (\<lambda>(thing, role, type) ws. if isRole role \<and> acceptsType ad type
          then snd (IndexSparseSet_add (valueToIndex ad thing) ws) else ws) inst (?g s'))"
    by (rule Cons.IH)
  then show ?case
    unfolding x by simp
qed

lemma values_forEach_remove_cong:
  assumes "m_values s = m_values s'"
  shows "m_values (forEach inst (\<lambda>thing role type ws.
          if isRole role \<and> acceptsType ad type
          then snd (IndexSparseSet_remove (valueToIndex ad thing) ws) else ws) s)
   = m_values (forEach inst (\<lambda>thing role type ws.
          if isRole role \<and> acceptsType ad type
          then snd (IndexSparseSet_remove (valueToIndex ad thing) ws) else ws) s')"
  using assms unfolding forEach_def
proof (induction inst arbitrary: s s')
  case Nil
  then show ?case by simp
next
  case (Cons x inst)
  obtain thing role type where x: "x = (thing, role, type)"
    by (cases x) auto
  let ?g = "\<lambda>ws. if isRole role \<and> acceptsType ad type
          then snd (IndexSparseSet_remove (valueToIndex ad thing) ws) else ws"
  have "m_values (?g s) = m_values (?g s')"
    by (simp add: Cons.prems)
  then have "m_values (fold (\<lambda>(thing, role, type) ws. if isRole role \<and> acceptsType ad type
          then snd (IndexSparseSet_remove (valueToIndex ad thing) ws) else ws) inst (?g s)) =
      m_values (fold (\<lambda>(thing, role, type) ws. if isRole role \<and> acceptsType ad type
          then snd (IndexSparseSet_remove (valueToIndex ad thing) ws) else ws) inst (?g s'))"
    by (rule Cons.IH)
  then show ?case
    unfolding x by simp
qed

lemma live_execute_cong:
  assumes "live l = live l'" and "insts block = insts block'"
  shows "live (execute ad block i l) = live (execute ad block' i l')"
proof -
  let ?kill = "\<lambda>thing role type ws.
          if isDef role \<and> acceptsType ad type
          then snd (IndexSparseSet_remove (valueToIndex ad thing) ws) else ws"
  let ?early = "\<lambda>thing role type ws.
          if isEarlyUse role \<and> acceptsType ad type
          then snd (IndexSparseSet_add (valueToIndex ad thing) ws) else ws"
  let ?late = "\<lambda>thing role type ws.
          if isLateUse role \<and> acceptsType ad type
          then snd (IndexSparseSet_add (valueToIndex ad thing) ws) else ws"
  let ?inst = "insts block ! i"
  let ?prev = "insts block ! (i - 1)"
  from assms(1) have 0: "m_values (m_workset l) = m_values (m_workset l')"
    by (simp add: live_def)
  have 1: "m_values (forEach ?inst ?kill (m_workset l)) = m_values (forEach ?inst ?kill (m_workset l'))"
    using 0 by (rule values_forEach_remove_cong)
  have 2: "m_values (forEach ?inst ?early (forEach ?inst ?kill (m_workset l)))
         = m_values (forEach ?inst ?early (forEach ?inst ?kill (m_workset l')))"
    using 1 by (rule values_forEach_add_cong)
  have 3: "m_values (forEach ?prev ?late (forEach ?inst ?early (forEach ?inst ?kill (m_workset l))))
         = m_values (forEach ?prev ?late (forEach ?inst ?early (forEach ?inst ?kill (m_workset l'))))"
    using 2 by (rule values_forEach_add_cong)
  have e: "live (execute ad block i l) =
      (if i \<noteq> 0
       then m_values (forEach ?prev ?late (forEach ?inst ?early (forEach ?inst ?kill (m_workset l))))
       else m_values (forEach ?inst ?early (forEach ?inst ?kill (m_workset l))))" for l
    by (simp add: live_def execute_def Let_def)
  have e': "live (execute ad block' i l') = live (execute ad block i l')"
    by (simp add: live_def execute_def Let_def assms(2))
  show ?thesis
    unfolding e' e using 2 3 by (cases "i = 0") simp_all
qed

lemma live_fold_execute_cong:
  assumes "insts block = insts block'"
  shows "live l = live l' \<Longrightarrow>
         live (fold (execute ad block) js l) = live (fold (execute ad block') js l')"
proof (induction js arbitrary: l l')
  case Nil
  then show ?case by simp
next
  case (Cons j js)
  from Cons.prems assms have "live (execute ad block j l) = live (execute ad block' j l')"
    by (rule live_execute_cong)
  then have "live (fold (execute ad block) js (execute ad block j l))
      = live (fold (execute ad block') js (execute ad block' j l'))"
    by (rule Cons.IH)
  then show ?case by simp
qed

lemma values_fold_add_cong:
  "m_values s = m_values s' \<Longrightarrow>
   m_values (fold (\<lambda>i ws. snd (IndexSparseSet_add i ws)) xs s) =
   m_values (fold (\<lambda>i ws. snd (IndexSparseSet_add i ws)) xs s')"
proof (induction xs arbitrary: s s')
  case Nil
  then show ?case by simp
next
  case (Cons x xs)
  from Cons.prems
  have "m_values (snd (IndexSparseSet_add x s)) = m_values (snd (IndexSparseSet_add x s'))"
    by simp
  then have "m_values (fold (\<lambda>i ws. snd (IndexSparseSet_add i ws)) xs (snd (IndexSparseSet_add x s))) =
      m_values (fold (\<lambda>i ws. snd (IndexSparseSet_add i ws)) xs (snd (IndexSparseSet_add x s')))"
    by (rule Cons.IH)
  then show ?case by simp
qed

lemma live_LocalCalc_cong:
  "m_liveAtTail l ! index block = m_liveAtTail l' ! index block' \<Longrightarrow>
   live (LocalCalc l block) = live (LocalCalc l' block')"
proof -
  assume t: "m_liveAtTail l ! index block = m_liveAtTail l' ! index block'"
  have "m_values (IndexSparseSet_clear (m_workset l)) = m_values (IndexSparseSet_clear (m_workset l'))"
    by simp
  then have "m_values (fold (\<lambda>i ws. snd (IndexSparseSet_add i ws)) (m_liveAtTail l ! index block)
                 (IndexSparseSet_clear (m_workset l)))
      = m_values (fold (\<lambda>i ws. snd (IndexSparseSet_add i ws)) (m_liveAtTail l ! index block)
                 (IndexSparseSet_clear (m_workset l')))"
    by (rule values_fold_add_cong)
  then show ?thesis
    by (simp add: live_def LocalCalc_def Let_def t)
qed

lemma live_localScan_cong:
  "m_liveAtTail l ! index block = m_liveAtTail l' ! index block' \<Longrightarrow> insts block = insts block' \<Longrightarrow>
   live (localScan ad l block) = live (localScan ad l' block')"
proof -
  assume t: "m_liveAtTail l ! index block = m_liveAtTail l' ! index block'"
    and i: "insts block = insts block'"
  from t have "live (LocalCalc l block) = live (LocalCalc l' block')"
    by (rule live_LocalCalc_cong)
  with i have "live (fold (execute ad block) (rev [0..<length (insts block)]) (LocalCalc l block))
      = live (fold (execute ad block') (rev [0..<length (insts block)]) (LocalCalc l' block'))"
    by (rule live_fold_execute_cong)
  then show ?thesis
    by (simp add: localScan_def i)
qed

text \<open>
  C2. \<open>execute(i)\<close> turns the live set after instruction \<open>i\<close> into the live set before
  it: it first removes the accepted defs of instruction \<open>i\<close>, then adds its accepted early
  uses, and then, only if \<open>i > 0\<close>, adds the accepted late uses of instruction \<open>i - 1\<close>.
  Hence an entity that instruction \<open>i\<close> both defines and uses late is live at the boundary
  before instruction \<open>i + 1\<close>, whatever the workset held: the late uses of \<open>i\<close> are added
  by \<open>execute(i + 1)\<close> after its own removals.
\<close>

theorem execute_step_order:
  "set (live (execute ad block i l)) =
     ((set (live l) - set (acceptedIndices isDef ad (insts block ! i)))
        \<union> set (acceptedIndices isEarlyUse ad (insts block ! i)))
     \<union> (if i \<noteq> 0 then set (acceptedIndices isLateUse ad (insts block ! (i - 1))) else {})
   \<and> (\<forall>v. v \<in> set (acceptedIndices isDef ad (insts block ! i)) \<and>
           v \<in> set (acceptedIndices isLateUse ad (insts block ! i))
           \<longrightarrow> v \<in> set (live (execute ad block (Suc i) l)))"
  by (simp add: set_live_execute stepLive_def)

theorem execute_step_order_witness:
  "0 \<in> set (acceptedIndices isDef StackSlotLivenessAdapter (insts defLateBlock ! 0)) \<and>
   0 \<in> set (acceptedIndices isLateUse StackSlotLivenessAdapter (insts defLateBlock ! 0)) \<and>
   0 \<in> set (live (execute StackSlotLivenessAdapter defLateBlock (Suc 0) emptyLiveness)) \<and>
   set (live (execute StackSlotLivenessAdapter defLateBlock 0
               (execute StackSlotLivenessAdapter defLateBlock (Suc 0) emptyLiveness))) = {}"
proof -
  have d: "0 \<in> set (acceptedIndices isDef StackSlotLivenessAdapter (insts defLateBlock ! 0))"
    by (simp add: acceptedIndices_def defLateBlock_def StackSlotLivenessAdapter_def slot0_def)
  have u: "0 \<in> set (acceptedIndices isLateUse StackSlotLivenessAdapter (insts defLateBlock ! 0))"
    by (simp add: acceptedIndices_def defLateBlock_def StackSlotLivenessAdapter_def slot0_def)
  have e: "set (live (execute StackSlotLivenessAdapter defLateBlock 0
               (execute StackSlotLivenessAdapter defLateBlock (Suc 0) emptyLiveness))) = {}"
    by code_simp
  from d u e execute_step_order [of StackSlotLivenessAdapter defLateBlock 0 emptyLiveness]
  show ?thesis by blast
qed

text \<open>
  C8. Nothing that is available once the constructor has returned writes to
  \<open>m_liveAtTail\<close>: the constructor of \<open>LocalCalc\<close>, \<open>execute\<close> and the whole local scan
  leave every tail set as it is (and \<open>m_liveAtHead\<close> too); \<open>live\<close> only reads the workset.
\<close>

theorem liveAtTail_stable:
  "m_liveAtTail (LocalCalc l block) = m_liveAtTail l \<and>
   m_liveAtTail (execute ad block i l) = m_liveAtTail l \<and>
   m_liveAtTail (localScan ad l block) = m_liveAtTail l \<and>
   live (execute ad block i l) = m_values (m_workset (execute ad block i l))"
  by (simp add: live_def)

text \<open>
  C6. The list that the local scan of a block leaves in the workset depends only on
  \<open>liveAtTail[block]\<close> and on the instructions of the block, not on what the workset or
  the rest of the engine held before; and scanning the block a second time yields the
  same list.
\<close>

theorem localScan_idempotent:
  "(m_liveAtTail l ! index block = m_liveAtTail l' ! index block' \<and> insts block = insts block'
      \<longrightarrow> live (localScan ad l block) = live (localScan ad l' block')) \<and>
   live (localScan ad (localScan ad l block) block) = live (localScan ad l block)"
proof -
  have "live (localScan ad (localScan ad l block) block) = live (localScan ad l block)"
    by (rule live_localScan_cong) simp_all
  moreover have "m_liveAtTail l ! index block = m_liveAtTail l' ! index block' \<and> insts block = insts block'
      \<longrightarrow> live (localScan ad l block) = live (localScan ad l' block')"
    using live_localScan_cong [of l block l' block' ad] by blast
  ultimately show ?thesis
    by blast
qed

theorem localScan_idempotent_witness:
  "live (localScan StackSlotLivenessAdapter
           (localScan StackSlotLivenessAdapter emptyLiveness defLateBlock) defLateBlock)
   = live (localScan StackSlotLivenessAdapter emptyLiveness defLateBlock) \<and>
   live (localScan StackSlotLivenessAdapter (emptyLiveness\<lparr>m_liveAtHead := [[5]]\<rparr>) defLateBlock)
   = live (localScan StackSlotLivenessAdapter emptyLiveness defLateBlock)"
  using localScan_idempotent [of emptyLiveness defLateBlock "emptyLiveness\<lparr>m_liveAtHead := [[5]]\<rparr>"
          defLateBlock StackSlotLivenessAdapter]
  by (simp add: emptyLiveness_def)

section \<open>The body of the loop over the blocks\<close>

lemma values_removeKnown:
  "m_values (removeKnown known w) =
     (if length (m_values w) = length known then [] else filter (\<lambda>v. v \<notin> set known) (m_values w))"
  by (simp add: removeKnown_def IndexSparseSet_size_def values_fold_remove)

lemma maxValue_removeKnown [simp]: "maxValue (removeKnown known w) = maxValue w"
  by (simp add: removeKnown_def)

lemma newValues_eq:
  "newValues ad l block =
     (if length (live (localScan ad l block)) = length (m_liveAtHead l ! index block) then []
      else filter (\<lambda>v. v \<notin> set (m_liveAtHead l ! index block)) (live (localScan ad l block)))"
  by (simp add: newValues_def values_removeKnown live_def)

lemma execute_workset_only: "execute ad block i l = l\<lparr>m_workset := m_workset (execute ad block i l)\<rparr>"
  by (simp add: execute_def Let_def)

lemma LocalCalc_workset_only: "LocalCalc l block = l\<lparr>m_workset := m_workset (LocalCalc l block)\<rparr>"
  by (simp add: LocalCalc_def Let_def)

lemma fold_execute_workset_only:
  "\<exists>w. fold (execute ad block) js l = l\<lparr>m_workset := w\<rparr>"
proof (induction js arbitrary: l)
  case Nil
  have "l = l\<lparr>m_workset := m_workset l\<rparr>" by simp
  then show ?case by (metis fold_simps(1))
next
  case (Cons j js)
  from Cons.IH [of "execute ad block j l"] obtain w where
    "fold (execute ad block) js (execute ad block j l) = (execute ad block j l)\<lparr>m_workset := w\<rparr>" ..
  then have "fold (execute ad block) (j # js) l = l\<lparr>m_workset := w\<rparr>"
    by (simp add: execute_def Let_def)
  then show ?case ..
qed

lemma localScan_workset_only:
  "localScan ad l block = l\<lparr>m_workset := m_workset (localScan ad l block)\<rparr>"
proof -
  obtain w where "localScan ad l block = (LocalCalc l block)\<lparr>m_workset := w\<rparr>"
    unfolding localScan_def using fold_execute_workset_only by blast
  then have "localScan ad l block = l\<lparr>m_workset := w\<rparr>"
    by (simp add: LocalCalc_def Let_def)
  then show ?thesis by simp
qed

lemma maxValue_execute [simp]: "maxValue (m_workset (execute ad block i l)) = maxValue (m_workset l)"
proof -
  have a: "maxValue (forEach inst (\<lambda>thing role type ws.
          if isRole role \<and> acceptsType ad type
          then snd (IndexSparseSet_add (valueToIndex ad thing) ws) else ws) s) = maxValue s" for inst isRole s
    unfolding forEach_def by (induction inst arbitrary: s) (auto split: prod.splits)
  have r: "maxValue (forEach inst (\<lambda>thing role type ws.
          if isRole role \<and> acceptsType ad type
          then snd (IndexSparseSet_remove (valueToIndex ad thing) ws) else ws) s) = maxValue s" for inst isRole s
    unfolding forEach_def by (induction inst arbitrary: s) (auto split: prod.splits)
  show ?thesis
    by (simp add: execute_def Let_def a r)
qed

lemma maxValue_localScan [simp]: "maxValue (m_workset (localScan ad l block)) = maxValue (m_workset l)"
proof -
  have "maxValue (m_workset (fold (execute ad block) js l')) = maxValue (m_workset l')" for js l'
    by (induction js arbitrary: l') simp_all
  then show ?thesis
    by (simp add: localScan_def LocalCalc_def Let_def)
qed

lemma processBlock_None: "blocks code ! i = None \<Longrightarrow> processBlock ret ad code i st = st"
  by (simp add: processBlock_def)

lemma processBlock_clean:
  assumes "blocks code ! i = Some b" and "\<not> dirtyBlocks st ! i"
  shows "processBlock ret ad code i st = st"
proof -
  from assms(2) have "(dirtyBlocks st)[i := False] = dirtyBlocks st"
    by (metis list_update_id)
  with assms show ?thesis
    by (simp add: processBlock_def quickClear_def)
qed

lemma processBlock_dirty:
  assumes "blocks code ! i = Some b" and "dirtyBlocks st ! i"
  shows "processBlock ret ad code i st =
     propagate ret (if newValues ad (liveness st) b = [] then [] else predecessors b)
       (beforePropagation ad b i st)"
proof -
  obtain w where e: "localScan ad (liveness st) b = (liveness st)\<lparr>m_workset := w\<rparr>"
    using localScan_workset_only by blast
  show ?thesis
    using assms unfolding beforePropagation_def
    by (simp add: processBlock_def quickClear_def Let_def IndexSparseSet_isEmpty_def newValues_def e)
qed

lemma processBlock_cases [case_names same dirty]:
  assumes "P st"
    and "\<And>b. blocks code ! i = Some b \<Longrightarrow> dirtyBlocks st ! i \<Longrightarrow>
           P (propagate ret (if newValues ad (liveness st) b = [] then [] else predecessors b)
                (beforePropagation ad b i st))"
  shows "P (processBlock ret ad code i st)"
proof (cases "blocks code ! i")
  case None
  with assms(1) show ?thesis by (simp add: processBlock_None)
next
  case (Some b)
  show ?thesis
  proof (cases "dirtyBlocks st ! i")
    case True
    with Some assms(2) show ?thesis by (simp add: processBlock_dirty)
  next
    case False
    with Some assms(1) show ?thesis by (simp add: processBlock_clean)
  qed
qed

lemma beforePropagation_fields [simp]:
  "m_liveAtTail (liveness (beforePropagation ad b i st)) = m_liveAtTail (liveness st)"
  "m_liveAtHead (liveness (beforePropagation ad b i st)) =
     (m_liveAtHead (liveness st))[index b := m_liveAtHead (liveness st) ! index b @ newValues ad (liveness st) b]"
  "m_values (m_workset (liveness (beforePropagation ad b i st))) = newValues ad (liveness st) b"
  "maxValue (m_workset (liveness (beforePropagation ad b i st))) = maxValue (m_workset (liveness st))"
  "dirtyBlocks (beforePropagation ad b i st) = (dirtyBlocks st)[i := False]"
  "changed (beforePropagation ad b i st) = changed st"
  by (simp_all add: beforePropagation_def newValues_def)

lemma shape_processBlock: "shape code st \<Longrightarrow> shape code (processBlock ret ad code i st)"
  by (rule processBlock_cases) (simp_all add: shape_def)

lemma wf_codeD:
  assumes "wf_code code" and "i < length (blocks code)" and "blocks code ! i = Some b"
  shows "index b = i" and "insts b \<noteq> []"
    and "\<And>p. p \<in> set (predecessors b) \<Longrightarrow> p < length (blocks code)"
    and "\<And>p. p \<in> set (predecessors b) \<Longrightarrow> blocks code ! p \<noteq> None"
proof -
  from assms(1,2) have "case blocks code ! i of None \<Rightarrow> True
      | Some block \<Rightarrow> index block = i \<and> insts block \<noteq> [] \<and>
          list_all (\<lambda>p. p < length (blocks code) \<and> blocks code ! p \<noteq> None) (predecessors block)"
    by (simp add: wf_code_def list_all_iff)
  with assms(3) have *: "index b = i \<and> insts b \<noteq> [] \<and>
          (\<forall>p \<in> set (predecessors b). p < length (blocks code) \<and> blocks code ! p \<noteq> None)"
    by (simp add: list_all_iff)
  from * show "index b = i" by simp
  from * show "insts b \<noteq> []" by simp
  from * show "\<And>p. p \<in> set (predecessors b) \<Longrightarrow> p < length (blocks code)" by simp
  from * show "\<And>p. p \<in> set (predecessors b) \<Longrightarrow> blocks code ! p \<noteq> None" by simp
qed

lemma set_newValues:
  assumes "distinct (m_liveAtHead l ! index b)"
    and "set (m_liveAtHead l ! index b) \<subseteq> set (live (localScan ad l b))"
  shows "set (newValues ad l b) = set (live (localScan ad l b)) - set (m_liveAtHead l ! index b)"
proof (cases "length (live (localScan ad l b)) = length (m_liveAtHead l ! index b)")
  case True
  have "card (set (live (localScan ad l b))) = length (live (localScan ad l b))"
    by (simp add: distinct_card distinct_live_localScan)
  moreover have "card (set (m_liveAtHead l ! index b)) = length (m_liveAtHead l ! index b)"
    using assms(1) by (simp add: distinct_card)
  ultimately have "card (set (live (localScan ad l b))) = card (set (m_liveAtHead l ! index b))"
    using True by simp
  with assms(2) have "set (m_liveAtHead l ! index b) = set (live (localScan ad l b))"
    by (simp add: card_subset_eq)
  with True show ?thesis by (simp add: newValues_eq)
next
  case False
  then show ?thesis by (auto simp: newValues_eq)
qed

lemma distinct_newValues: "distinct (newValues ad l b)"
  by (simp add: newValues_eq distinct_live_localScan)

lemma newValues_fresh: "set (newValues ad l b) \<inter> set (m_liveAtHead l ! index b) = {}"
  by (auto simp: newValues_eq)

lemma newValues_subset: "set (newValues ad l b) \<subseteq> set (live (localScan ad l b))"
  by (auto simp: newValues_eq)

lemma processBlock_tails_length [simp]:
  "length (m_liveAtTail (liveness (processBlock ret ad code i st))) = length (m_liveAtTail (liveness st))"
  by (rule processBlock_cases) simp_all

lemma processBlock_tails:
  assumes "blocks code ! i = Some b"
    and "\<forall>p \<in> set (predecessors b). p < length (m_liveAtTail (liveness st))"
  shows "set (m_liveAtTail (liveness (processBlock ret ad code i st)) ! q) =
     set (m_liveAtTail (liveness st) ! q) \<union>
       (if dirtyBlocks st ! i \<and> q \<in> set (predecessors b) then set (newValues ad (liveness st) b) else {})"
proof (cases "dirtyBlocks st ! i")
  case False
  with assms show ?thesis by (simp add: processBlock_clean)
next
  case True
  let ?ps = "if newValues ad (liveness st) b = [] then [] else predecessors b"
  have e: "processBlock ret ad code i st = propagate ret ?ps (beforePropagation ad b i st)"
    using assms(1) True by (rule processBlock_dirty)
  show ?thesis
  proof (cases "q \<in> set ?ps")
    case True
    with assms(2) have "set (m_liveAtTail (liveness (propagate ret ?ps (beforePropagation ad b i st))) ! q)
        = set (m_liveAtTail (liveness (beforePropagation ad b i st)) ! q) \<union>
          set (m_values (m_workset (liveness (beforePropagation ad b i st))))"
      by (intro propagate_set) (auto split: if_splits)
    with True \<open>dirtyBlocks st ! i\<close> show ?thesis
      unfolding e by (auto split: if_splits)
  next
    case False
    then have "m_liveAtTail (liveness (propagate ret ?ps (beforePropagation ad b i st))) ! q
        = m_liveAtTail (liveness (beforePropagation ad b i st)) ! q"
      by (rule propagate_other)
    with False show ?thesis
      unfolding e by (auto split: if_splits)
  qed
qed

lemma processBlock_tails_distinct:
  assumes "blocks code ! i = Some b"
    and "\<forall>p \<in> set (predecessors b). p < length (m_liveAtTail (liveness st))"
    and "distinct (m_liveAtTail (liveness st) ! q)"
  shows "distinct (m_liveAtTail (liveness (processBlock ret ad code i st)) ! q)"
proof (cases "dirtyBlocks st ! i")
  case False
  with assms show ?thesis by (simp add: processBlock_clean)
next
  case True
  let ?ps = "if newValues ad (liveness st) b = [] then [] else predecessors b"
  have e: "processBlock ret ad code i st = propagate ret ?ps (beforePropagation ad b i st)"
    using assms(1) True by (rule processBlock_dirty)
  have "distinct (m_liveAtTail (liveness (propagate ret ?ps (beforePropagation ad b i st))) ! q)"
    using assms(2,3) by (intro propagate_distinct) (auto split: if_splits)
  then show ?thesis unfolding e .
qed

lemma processBlock_heads:
  assumes "blocks code ! i = Some b"
  shows "m_liveAtHead (liveness (processBlock ret ad code i st)) =
     (if dirtyBlocks st ! i
      then (m_liveAtHead (liveness st))
             [index b := m_liveAtHead (liveness st) ! index b @ newValues ad (liveness st) b]
      else m_liveAtHead (liveness st))"
  using assms by (simp add: processBlock_clean processBlock_dirty)

lemma processBlock_heads_length [simp]:
  "length (m_liveAtHead (liveness (processBlock ret ad code i st))) = length (m_liveAtHead (liveness st))"
  by (rule processBlock_cases) simp_all

lemma processBlock_dirty_length [simp]:
  "length (dirtyBlocks (processBlock ret ad code i st)) = length (dirtyBlocks st)"
  by (rule processBlock_cases) simp_all

lemma processBlock_maxValue [simp]:
  "maxValue (m_workset (liveness (processBlock ret ad code i st))) = maxValue (m_workset (liveness st))"
  by (rule processBlock_cases) simp_all

lemma processBlock_dirtyBits:
  assumes "blocks code ! i = Some b"
    and "\<forall>p \<in> set (predecessors b). p < length (m_liveAtTail (liveness st)) \<and> p < length (dirtyBlocks st)"
    and "i < length (dirtyBlocks st)"
  shows "dirtyBlocks (processBlock ret ad code i st) ! q =
     (if dirtyBlocks st ! i
      then (q \<noteq> i \<and> dirtyBlocks st ! q) \<or>
           (q \<in> set (predecessors b) \<and>
            \<not> set (newValues ad (liveness st) b) \<subseteq> set (m_liveAtTail (liveness st) ! q))
      else dirtyBlocks st ! q)"
proof (cases "dirtyBlocks st ! i")
  case False
  with assms show ?thesis by (simp add: processBlock_clean)
next
  case True
  let ?ps = "if newValues ad (liveness st) b = [] then [] else predecessors b"
  let ?st = "beforePropagation ad b i st"
  have e: "processBlock ret ad code i st = propagate ret ?ps ?st"
    using assms(1) True by (rule processBlock_dirty)
  have c: "dirtyBlocks ?st ! q = (q \<noteq> i \<and> dirtyBlocks st ! q)"
    using assms(3) by (cases "q = i") simp_all
  show ?thesis
  proof (cases "q \<in> set ?ps")
    case True
    with assms(2) have "dirtyBlocks (propagate ret ?ps ?st) ! q =
        (dirtyBlocks ?st ! q \<or>
         \<not> set (m_values (m_workset (liveness ?st))) \<subseteq> set (m_liveAtTail (liveness ?st) ! q))"
      by (intro propagate_dirty) (auto split: if_splits)
    with True \<open>dirtyBlocks st ! i\<close> c show ?thesis
      unfolding e by (auto split: if_splits)
  next
    case False
    then have "dirtyBlocks (propagate ret ?ps ?st) ! q = dirtyBlocks ?st ! q"
      by (rule propagate_other)
    with False \<open>dirtyBlocks st ! i\<close> c show ?thesis
      unfolding e by (auto split: if_splits)
  qed
qed

lemma processBlock_changed_mono: "changed st \<Longrightarrow> changed (processBlock ret ad code i st)"
  by (rule processBlock_cases) (simp_all add: propagate_changed_mono)

lemma processBlock_changed:
  assumes "blocks code ! i = Some b"
    and "\<forall>p \<in> set (predecessors b). p < length (m_liveAtTail (liveness st))"
    and "changed (processBlock ret ad code i st)"
  shows "changed st \<or> (dirtyBlocks st ! i \<and> (\<exists>q \<in> set (predecessors b).
            \<not> set (newValues ad (liveness st) b) \<subseteq> set (m_liveAtTail (liveness st) ! q)))"
proof (cases "dirtyBlocks st ! i")
  case False
  with assms show ?thesis by (simp add: processBlock_clean)
next
  case True
  let ?ps = "if newValues ad (liveness st) b = [] then [] else predecessors b"
  let ?st = "beforePropagation ad b i st"
  have e: "processBlock ret ad code i st = propagate ret ?ps ?st"
    using assms(1) True by (rule processBlock_dirty)
  have "changed ?st \<or> (\<exists>q \<in> set ?ps.
      \<not> set (m_values (m_workset (liveness ?st))) \<subseteq> set (m_liveAtTail (liveness ?st) ! q))"
    using assms(2,3) unfolding e by (intro propagate_changed) (auto split: if_splits)
  with True show ?thesis
    by (auto split: if_splits)
qed

section \<open>The initial state\<close>

lemma forEach_HashSet_add:
  "set (forEach inst (\<lambda>thing role type liveAtTail.
          if isRole role \<and> acceptsType ad type
          then snd (HashSet_add (valueToIndex ad thing) liveAtTail) else liveAtTail) xs)
     = set xs \<union> set (acceptedIndices isRole ad inst) \<and>
   (distinct xs \<longrightarrow> distinct (forEach inst (\<lambda>thing role type liveAtTail.
          if isRole role \<and> acceptsType ad type
          then snd (HashSet_add (valueToIndex ad thing) liveAtTail) else liveAtTail) xs))"
  unfolding forEach_def acceptedIndices_def
  by (induction inst arbitrary: xs) (auto simp: HashSet_add_def split: prod.splits)

lemma set_seedOf:
  "blocks code ! i = Some b \<Longrightarrow>
   set (seedOf ad code i) = set (acceptedIndices isLateUse ad (last (insts b)))"
  by (simp add: seedOf_def forEach_HashSet_add)

lemma distinct_seedOf: "distinct (seedOf ad code i)"
  by (cases "blocks code ! i") (simp_all add: seedOf_def forEach_HashSet_add)

lemma seeding_prefix:
  assumes "wf_code code" and "k \<le> length (blocks code)"
  shows "fold (\<lambda>slot tails. case slot of None \<Rightarrow> tails | Some block \<Rightarrow> seedBlock ad block tails)
           (take k (blocks code)) (replicate (length (blocks code)) [])
         = map (\<lambda>i. if i < k then seedOf ad code i else []) [0..<length (blocks code)]"
  using assms(2)
proof (induction k)
  case 0
  show ?case
    by (rule nth_equalityI) simp_all
next
  case (Suc k)
  let ?n = "length (blocks code)"
  let ?f = "\<lambda>slot tails. case slot of None \<Rightarrow> tails | Some block \<Rightarrow> seedBlock ad block tails"
  let ?m = "\<lambda>k. map (\<lambda>i. if i < k then seedOf ad code i else []) [0..<?n]"
  from Suc.prems have k: "k < ?n" by simp
  then have "take (Suc k) (blocks code) = take k (blocks code) @ [blocks code ! k]"
    by (simp add: take_Suc_conv_app_nth)
  then have "fold ?f (take (Suc k) (blocks code)) (replicate ?n [])
      = ?f (blocks code ! k) (fold ?f (take k (blocks code)) (replicate ?n []))"
    by simp
  also have "fold ?f (take k (blocks code)) (replicate ?n []) = ?m k"
    using Suc.IH k by simp
  finally have "fold ?f (take (Suc k) (blocks code)) (replicate ?n []) = ?f (blocks code ! k) (?m k)" .
  also have "?f (blocks code ! k) (?m k) = ?m (Suc k)"
  proof (cases "blocks code ! k")
    case None
    then have "seedOf ad code k = []" by (simp add: seedOf_def)
    with None show ?thesis
      by (intro nth_equalityI) (auto simp: less_Suc_eq)
  next
    case (Some b)
    with assms(1) k have i: "index b = k" by (simp add: wf_codeD(1))
    have "seedBlock ad b (?m k) = (?m k)[k := seedOf ad code k]"
      using k Some by (simp add: seedBlock_def i seedOf_def)
    also have "\<dots> = ?m (Suc k)"
      using k by (intro nth_equalityI) (auto simp: nth_list_update less_Suc_eq)
    finally show ?thesis by (simp only: Some option.case)
  qed
  finally show ?case .
qed

lemma initial_tails:
  assumes "wf_code code"
  shows "m_liveAtTail (initialLiveness ad code) = map (seedOf ad code) [0..<length (blocks code)]"
  using seeding_prefix [OF assms order_refl, of ad]
  by (simp add: initialLiveness_def cong: map_cong)

lemma initial_fields [simp]:
  "m_liveAtHead (initialLiveness ad code) = replicate (length (blocks code)) []"
  "m_workset (initialLiveness ad code) = IndexSparseSet_new (maxIndex ad code)"
  "liveness (initialState ad code) = initialLiveness ad code"
  "dirtyBlocks (initialState ad code) = replicate (length (blocks code)) True"
  "changed (initialState ad code) = False"
  by (simp_all add: initialLiveness_def initialState_def)

lemma shape_initial: "wf_code code \<Longrightarrow> shape code (initialState ad code)"
  by (simp add: shape_def initial_tails)

section \<open>The invariant of the loop\<close>

lemma acceptedIndices_entities:
  assumes "i < length (blocks code)" and "blocks code ! i = Some b" and "inst \<in> set (insts b)"
  shows "set (acceptedIndices isRole ad inst) \<subseteq> set (entityIndices ad code)"
proof
  fix v
  assume "v \<in> set (acceptedIndices isRole ad inst)"
  then have v: "v \<in> set (acceptedIndices (\<lambda>role. True) ad inst)"
    by (force simp: acceptedIndices_def)
  from assms(1,2) have "Some b \<in> set (blocks code)"
    by (metis nth_mem)
  with v assms(3) show "v \<in> set (entityIndices ad code)"
    unfolding entityIndices_def by (auto intro!: bexI [of _ "Some b"])
qed

lemma stepLive_entities:
  assumes "i < length (blocks code)" and "blocks code ! i = Some b" and "j < length (insts b)"
    and "W \<subseteq> T \<union> set (entityIndices ad code)"
  shows "stepLive ad b j W \<subseteq> T \<union> set (entityIndices ad code)"
proof -
  have "set (acceptedIndices isEarlyUse ad (insts b ! j)) \<subseteq> set (entityIndices ad code)"
    using assms(1,2,3) by (intro acceptedIndices_entities) auto
  moreover have "set (acceptedIndices isLateUse ad (insts b ! (j - 1))) \<subseteq> set (entityIndices ad code)"
    using assms(1,2,3) by (intro acceptedIndices_entities [where b = b]) (auto intro!: nth_mem)
  ultimately show ?thesis
    using assms(4) by (auto simp: stepLive_def)
qed

lemma headLive_entities:
  assumes "i < length (blocks code)" and "blocks code ! i = Some b"
  shows "headLive ad b T \<subseteq> T \<union> set (entityIndices ad code)"
proof -
  have "\<forall>j \<in> set js. j < length (insts b) \<Longrightarrow> W \<subseteq> T \<union> set (entityIndices ad code) \<Longrightarrow>
        fold (stepLive ad b) js W \<subseteq> T \<union> set (entityIndices ad code)" for js W
  proof (induction js arbitrary: W)
    case Nil
    then show ?case by simp
  next
    case (Cons j js)
    from Cons.prems have "stepLive ad b j W \<subseteq> T \<union> set (entityIndices ad code)"
      by (intro stepLive_entities [OF assms]) auto
    with Cons.prems show ?case
      by (simp add: Cons.IH)
  qed
  then show ?thesis
    unfolding headLive_def by simp
qed

lemma seedOf_entities:
  assumes "wf_code code" and "i < length (blocks code)"
  shows "set (seedOf ad code i) \<subseteq> set (entityIndices ad code)"
proof (cases "blocks code ! i")
  case None
  then show ?thesis by (simp add: seedOf_def)
next
  case (Some b)
  with assms have "insts b \<noteq> []" by (simp add: wf_codeD(2))
  then have "last (insts b) \<in> set (insts b)" by simp
  with assms(2) Some have "set (acceptedIndices isLateUse ad (last (insts b))) \<subseteq> set (entityIndices ad code)"
    by (rule acceptedIndices_entities)
  with Some show ?thesis by (simp add: set_seedOf)
qed

lemma sound_initial:
  assumes "wf_code code"
  shows "sound ad code (initialState ad code)"
  unfolding sound_def
  using assms
  by (simp add: shape_initial initial_tails distinct_seedOf seedOf_entities IndexSparseSet_new_def)

lemma sound_round: "sound ad code st \<Longrightarrow> sound ad code (st\<lparr>changed := False\<rparr>)"
  by (simp add: sound_def shape_def)

lemma sound_processBlock:
  assumes wf: "wf_code code" and i: "i < length (blocks code)" and s: "sound ad code st"
  shows "sound ad code (processBlock ret ad code i st)"
proof (cases "blocks code ! i")
  case None
  with s show ?thesis by (simp add: processBlock_None)
next
  case (Some b)
  let ?n = "length (blocks code)"
  let ?l = "liveness st"
  let ?st' = "processBlock ret ad code i st"
  let ?l' = "liveness ?st'"
  let ?N = "newValues ad ?l b"
  let ?E = "set (entityIndices ad code)"
  from wf i Some have ib: "index b = i" by (rule wf_codeD(1))
  from s have sh: "length (m_liveAtTail ?l) = ?n" "length (m_liveAtHead ?l) = ?n" "length (dirtyBlocks st) = ?n"
    by (simp_all add: sound_def shape_def)
  from wf i Some sh have preds: "\<forall>p \<in> set (predecessors b). p < length (m_liveAtTail ?l)"
    by (simp add: wf_codeD(3))
  have scan: "set (live (localScan ad m c)) = headLive ad c (set (m_liveAtTail m ! index c))" for m c
    by (rule set_live_localScan)
  from s i have "set (m_liveAtTail ?l ! i) \<subseteq> ?E"
    by (simp add: sound_def)
  with headLive_entities [OF i Some, of ad "set (m_liveAtTail ?l ! i)"]
  have "set (live (localScan ad ?l b)) \<subseteq> ?E"
    unfolding scan ib by blast
  with newValues_subset [of ad ?l b] have NE: "set ?N \<subseteq> ?E" by blast
  have T: "set (m_liveAtTail ?l' ! q) = set (m_liveAtTail ?l ! q) \<union>
       (if dirtyBlocks st ! i \<and> q \<in> set (predecessors b) then set ?N else {})" for q
    using Some preds by (rule processBlock_tails)
  have Hd: "m_liveAtHead ?l' =
     (if dirtyBlocks st ! i then (m_liveAtHead ?l)[i := m_liveAtHead ?l ! i @ ?N] else m_liveAtHead ?l)"
    using processBlock_heads [OF Some, of ret ad st] by (simp add: ib)
  have "shape code ?st'"
    using s by (simp add: sound_def shape_processBlock)
  moreover have "maxValue (m_workset ?l') = maxIndex ad code"
    using s by (simp add: sound_def)
  moreover have "distinct (m_liveAtTail ?l' ! q)" if "q < ?n" for q
    using Some preds s that by (intro processBlock_tails_distinct) (simp_all add: sound_def)
  moreover have "distinct (m_liveAtHead ?l' ! q)" if "q < ?n" for q
  proof (cases "dirtyBlocks st ! i \<and> q = i")
    case True
    from s i have "distinct (m_liveAtHead ?l ! i)" by (simp add: sound_def)
    with newValues_fresh [of ad ?l b] have "distinct (m_liveAtHead ?l ! i @ ?N)"
      by (auto simp: distinct_newValues ib)
    with True i sh show ?thesis by (simp add: Hd)
  next
    case False
    from s that have "distinct (m_liveAtHead ?l ! q)" by (simp add: sound_def)
    with False show ?thesis by (auto simp: Hd)
  qed
  moreover have "set (m_liveAtTail ?l' ! q) \<subseteq> ?E" if "q < ?n" for q
  proof -
    from s that have "set (m_liveAtTail ?l ! q) \<subseteq> ?E" by (simp add: sound_def)
    with NE show ?thesis unfolding T by auto
  qed
  moreover have "set (m_liveAtHead ?l' ! q) \<subseteq> set (live (localScan ad ?l' c))"
    if "q < ?n" and c: "blocks code ! q = Some c" for q c
  proof -
    from wf that have ic: "index c = q" by (rule wf_codeD(1))
    from s that have old: "set (m_liveAtHead ?l ! q) \<subseteq> set (live (localScan ad ?l c))"
      by (simp add: sound_def)
    have "set (m_liveAtTail ?l ! q) \<subseteq> set (m_liveAtTail ?l' ! q)"
      unfolding T by auto
    then have mono: "set (live (localScan ad ?l c)) \<subseteq> set (live (localScan ad ?l' c))"
      unfolding scan ic by (rule headLive_mono)
    show ?thesis
    proof (cases "dirtyBlocks st ! i \<and> q = i")
      case True
      with c Some have "c = b" by simp
      with True i sh have "set (m_liveAtHead ?l' ! q) = set (m_liveAtHead ?l ! q) \<union> set ?N"
        by (simp add: Hd)
      with old mono newValues_subset [of ad ?l b] \<open>c = b\<close> show ?thesis by blast
    next
      case False
      then have "m_liveAtHead ?l' ! q = m_liveAtHead ?l ! q" by (auto simp: Hd)
      with old mono show ?thesis by simp
    qed
  qed
  ultimately show ?thesis
    unfolding sound_def by blast
qed

lemma reachable_sound:
  assumes "wf_code code" and "reachable ret ad code st"
  shows "sound ad code st"
  using assms(2)
proof (induction rule: reachable.induct)
  case init
  from assms(1) show ?case by (rule sound_initial)
next
  case (round st)
  then show ?case by (simp add: sound_round)
next
  case (block st i)
  with assms(1) show ?case by (simp add: sound_processBlock)
qed

section \<open>The initial state, the invariant and the propagation, as claimed\<close>

lemma reachable_fold:
  "reachable ret ad code st \<Longrightarrow> \<forall>j \<in> set js. j < length (blocks code) \<Longrightarrow>
   reachable ret ad code (fold (processBlock ret ad code) js st)"
  by (induction js arbitrary: st) (simp_all add: reachable.block)

lemma reachable_pass: "reachable ret ad code st \<Longrightarrow> reachable ret ad code (pass ret ad code st)"
  unfolding pass_def by (intro reachable_fold reachable.round) simp_all

text \<open>
  C5. Before the fixed-point iteration starts, \<open>liveAtTail\<close> of every block holds exactly
  the indices of the accepted late-use operands of the block's last instruction, and
  every block is marked dirty (the engine of the initial loop state is the seeded one).
\<close>

theorem initial_seed_and_dirty:
  assumes "wf_code code" and "i < length (blocks code)" and "blocks code ! i = Some b"
  shows "liveAtTail (initialLiveness ad code) b = set (acceptedIndices isLateUse ad (last (insts b))) \<and>
         dirtyBlocks (initialState ad code) ! index b = True \<and>
         liveness (initialState ad code) = initialLiveness ad code"
proof -
  from assms have "index b = i" by (rule wf_codeD(1))
  with assms show ?thesis
    by (simp add: liveAtTail_def initial_tails set_seedOf)
qed

theorem initial_seed_and_dirty_witness:
  "wf_code chainCode \<and> blocks chainCode ! 0 = Some chainBlock0 \<and>
   liveAtTail (initialLiveness StackSlotLivenessAdapter chainCode) chainBlock0 = {1} \<and>
   dirtyBlocks (initialState StackSlotLivenessAdapter chainCode) ! index chainBlock0 = True"
proof -
  have w: "wf_code chainCode" by code_simp
  have l: "0 < length (blocks chainCode)" by (simp add: chainCode_def)
  have b: "blocks chainCode ! 0 = Some chainBlock0" by (simp add: chainCode_def)
  have e: "set (acceptedIndices isLateUse StackSlotLivenessAdapter (last (insts chainBlock0))) = {1}"
    by (simp add: acceptedIndices_def chainBlock0_def StackSlotLivenessAdapter_def slot1_def)
  from initial_seed_and_dirty [OF w l b, of StackSlotLivenessAdapter] w b e show ?thesis
    by simp
qed

text \<open>
  C9. In every state the loop passes through, and for every block \<open>b\<close>, the vector
  \<open>liveAtHead[b]\<close> has no duplicate and holds only indices that the local scan of \<open>b\<close> from
  the current \<open>liveAtTail[b]\<close> finds live before the first instruction. Therefore, when the
  workset after the scan has the size of \<open>liveAtHead[b]\<close>, nothing in it is new, and what
  the removal step leaves in the workset (by \<open>clear\<close> or by \<open>remove\<close>) is in both cases
  the set of the values not yet recorded.
\<close>

theorem liveAtHead_invariant:
  assumes "wf_code code" and "reachable ret ad code st"
    and "i < length (blocks code)" and "blocks code ! i = Some b"
  shows "distinct (m_liveAtHead (liveness st) ! index b) \<and>
         set (m_liveAtHead (liveness st) ! index b) \<subseteq> set (live (localScan ad (liveness st) b)) \<and>
         (IndexSparseSet_size (m_workset (localScan ad (liveness st) b))
            = length (m_liveAtHead (liveness st) ! index b)
          \<longrightarrow> set (live (localScan ad (liveness st) b)) - set (m_liveAtHead (liveness st) ! index b) = {}) \<and>
         set (newValues ad (liveness st) b)
           = set (live (localScan ad (liveness st) b)) - set (m_liveAtHead (liveness st) ! index b)"
proof -
  from assms(1,3,4) have ib: "index b = i" by (rule wf_codeD(1))
  from assms(1,2) have "sound ad code st" by (rule reachable_sound)
  with assms(3,4) have d: "distinct (m_liveAtHead (liveness st) ! index b)"
    and s: "set (m_liveAtHead (liveness st) ! index b) \<subseteq> set (live (localScan ad (liveness st) b))"
    by (simp_all add: sound_def ib)
  from d s have n: "set (newValues ad (liveness st) b)
           = set (live (localScan ad (liveness st) b)) - set (m_liveAtHead (liveness st) ! index b)"
    by (rule set_newValues)
  have "newValues ad (liveness st) b = []"
    if "IndexSparseSet_size (m_workset (localScan ad (liveness st) b))
            = length (m_liveAtHead (liveness st) ! index b)"
    using that by (simp add: newValues_eq live_def IndexSparseSet_size_def)
  with n d s show ?thesis by auto
qed

theorem liveAtHead_invariant_witness:
  "wf_code chainCode \<and>
   reachable returnsPrevious StackSlotLivenessAdapter chainCode
     (processBlock returnsPrevious StackSlotLivenessAdapter chainCode 1
        (initialState StackSlotLivenessAdapter chainCode)) \<and>
   m_liveAtHead (liveness (processBlock returnsPrevious StackSlotLivenessAdapter chainCode 1
        (initialState StackSlotLivenessAdapter chainCode))) ! index chainBlock1 = [0] \<and>
   set (newValues StackSlotLivenessAdapter
         (liveness (processBlock returnsPrevious StackSlotLivenessAdapter chainCode 1
            (initialState StackSlotLivenessAdapter chainCode))) chainBlock1) = {}"
proof -
  let ?st = "processBlock returnsPrevious StackSlotLivenessAdapter chainCode 1
        (initialState StackSlotLivenessAdapter chainCode)"
  have w: "wf_code chainCode" by code_simp
  have l: "1 < length (blocks chainCode)" by (simp add: chainCode_def)
  have b: "blocks chainCode ! 1 = Some chainBlock1" by (simp add: chainCode_def)
  have r: "reachable returnsPrevious StackSlotLivenessAdapter chainCode ?st"
    using l by (intro reachable.block reachable.init)
  have h: "m_liveAtHead (liveness ?st) ! index chainBlock1 = [0]" by code_simp
  have s: "set (live (localScan StackSlotLivenessAdapter (liveness ?st) chainBlock1)) = {0}" by code_simp
  from liveAtHead_invariant [OF w r l b] w r h s show ?thesis
    by simp
qed

text \<open>
  C4. When the body of the loop runs on a dirty block \<open>b\<close>, every value of the delta (live
  before the first instruction of \<open>b\<close> and not yet in \<open>liveAtHead[b]\<close>) is in \<open>liveAtTail[p]\<close>
  of every predecessor \<open>p\<close> afterwards, and nothing else is added; afterwards \<open>p\<close> is dirty
  exactly when it was dirty before (the bit of \<open>b\<close> itself having been cleared) or some
  value of the delta was new in \<open>liveAtTail[p]\<close>. A block that is not a predecessor keeps
  its tail set and its bit (but for the cleared bit of \<open>b\<close>).
\<close>

theorem predecessor_propagation:
  assumes "wf_code code" and "reachable ret ad code st"
    and "i < length (blocks code)" and "blocks code ! i = Some b" and "dirtyBlocks st ! i"
    and "q < length (blocks code)"
  shows "set (m_liveAtTail (liveness (processBlock ret ad code i st)) ! q) =
           set (m_liveAtTail (liveness st) ! q) \<union>
             (if q \<in> set (predecessors b)
              then set (live (localScan ad (liveness st) b)) - set (m_liveAtHead (liveness st) ! index b)
              else {}) \<and>
         dirtyBlocks (processBlock ret ad code i st) ! q =
           ((q \<noteq> i \<and> dirtyBlocks st ! q) \<or>
            (q \<in> set (predecessors b) \<and>
             \<not> set (live (localScan ad (liveness st) b)) - set (m_liveAtHead (liveness st) ! index b)
                 \<subseteq> set (m_liveAtTail (liveness st) ! q)))"
proof -
  from assms(1,3,4) have ib: "index b = i" by (rule wf_codeD(1))
  from assms(1,2) have snd: "sound ad code st" by (rule reachable_sound)
  then have sh: "length (m_liveAtTail (liveness st)) = length (blocks code)"
    "length (dirtyBlocks st) = length (blocks code)"
    by (simp_all add: sound_def shape_def)
  from snd assms(3,4) have "distinct (m_liveAtHead (liveness st) ! index b)"
    and "set (m_liveAtHead (liveness st) ! index b) \<subseteq> set (live (localScan ad (liveness st) b))"
    by (simp_all add: sound_def ib)
  then have n: "set (newValues ad (liveness st) b)
           = set (live (localScan ad (liveness st) b)) - set (m_liveAtHead (liveness st) ! index b)"
    by (rule set_newValues)
  from assms(1,3,4) sh have p: "\<forall>p \<in> set (predecessors b).
      p < length (m_liveAtTail (liveness st)) \<and> p < length (dirtyBlocks st)"
    by (simp add: wf_codeD(3))
  then have p': "\<forall>p \<in> set (predecessors b). p < length (m_liveAtTail (liveness st))"
    by simp
  from assms(3) sh have i': "i < length (dirtyBlocks st)" by simp
  show ?thesis
    using processBlock_tails [OF assms(4) p', of ret ad q] processBlock_dirtyBits [OF assms(4) p i', of ret ad q]
      assms(5)
    unfolding n by simp
qed

theorem predecessor_propagation_witness:
  "wf_code chainCode \<and>
   reachable returnsPrevious StackSlotLivenessAdapter chainCode (initialState StackSlotLivenessAdapter chainCode) \<and>
   blocks chainCode ! 1 = Some chainBlock1 \<and>
   dirtyBlocks (initialState StackSlotLivenessAdapter chainCode) ! 1 \<and>
   0 \<in> set (predecessors chainBlock1) \<and>
   set (m_liveAtTail (liveness (processBlock returnsPrevious StackSlotLivenessAdapter chainCode 1
          (initialState StackSlotLivenessAdapter chainCode))) ! 0) = {1, 0} \<and>
   dirtyBlocks (processBlock returnsPrevious StackSlotLivenessAdapter chainCode 1
          (initialState StackSlotLivenessAdapter chainCode)) ! 0"
proof -
  let ?ad = StackSlotLivenessAdapter
  let ?st = "initialState ?ad chainCode"
  have w: "wf_code chainCode" by code_simp
  have r: "reachable returnsPrevious ?ad chainCode ?st" by (rule reachable.init)
  have l: "1 < length (blocks chainCode)" "0 < length (blocks chainCode)" by (simp_all add: chainCode_def)
  have b: "blocks chainCode ! 1 = Some chainBlock1" by (simp add: chainCode_def)
  have d: "dirtyBlocks ?st ! 1" by (simp add: chainCode_def)
  have p: "0 \<in> set (predecessors chainBlock1)" by (simp add: chainBlock1_def)
  have t: "set (m_liveAtTail (liveness ?st) ! 0) = {1}" by code_simp
  have s: "set (live (localScan ?ad (liveness ?st) chainBlock1)) = {0}" by code_simp
  have h: "m_liveAtHead (liveness ?st) ! index chainBlock1 = []" by code_simp
  from predecessor_propagation [OF w r l(1) b d l(2)] w r b d p t s h show ?thesis
    by auto
qed

section \<open>Termination of the do/while loop\<close>

lemma processBlock_grows:
  assumes wf: "wf_code code" and i: "i < length (blocks code)" and s: "sound ad code st"
  shows "set (m_liveAtTail (liveness st) ! q) \<subseteq> set (m_liveAtTail (liveness (processBlock ret ad code i st)) ! q)"
proof (cases "blocks code ! i")
  case None
  then show ?thesis by (simp add: processBlock_None)
next
  case (Some b)
  from s have "length (m_liveAtTail (liveness st)) = length (blocks code)"
    by (simp add: sound_def shape_def)
  with wf i Some have "\<forall>p \<in> set (predecessors b). p < length (m_liveAtTail (liveness st))"
    by (simp add: wf_codeD(3))
  with Some show ?thesis
    by (simp add: processBlock_tails)
qed

lemma processBlock_changed_strict:
  assumes wf: "wf_code code" and i: "i < length (blocks code)" and s: "sound ad code st"
    and c: "changed (processBlock ret ad code i st)"
  shows "changed st \<or> (\<exists>q < length (blocks code).
           set (m_liveAtTail (liveness st) ! q) \<subset> set (m_liveAtTail (liveness (processBlock ret ad code i st)) ! q))"
proof (cases "blocks code ! i")
  case None
  with c show ?thesis by (simp add: processBlock_None)
next
  case (Some b)
  from s have "length (m_liveAtTail (liveness st)) = length (blocks code)"
    by (simp add: sound_def shape_def)
  with wf i Some have p: "\<forall>p \<in> set (predecessors b). p < length (m_liveAtTail (liveness st))"
    by (simp add: wf_codeD(3))
  from processBlock_changed [OF Some p c] show ?thesis
  proof
    assume "changed st"
    then show ?thesis ..
  next
    assume "dirtyBlocks st ! i \<and> (\<exists>q \<in> set (predecessors b).
            \<not> set (newValues ad (liveness st) b) \<subseteq> set (m_liveAtTail (liveness st) ! q))"
    then obtain q where d: "dirtyBlocks st ! i" and q: "q \<in> set (predecessors b)"
      and n: "\<not> set (newValues ad (liveness st) b) \<subseteq> set (m_liveAtTail (liveness st) ! q)"
      by blast
    from wf i Some q have "q < length (blocks code)" by (rule wf_codeD(3))
    moreover from d q n
    have "set (m_liveAtTail (liveness st) ! q) \<subset> set (m_liveAtTail (liveness (processBlock ret ad code i st)) ! q)"
      unfolding processBlock_tails [OF Some p] by auto
    ultimately show ?thesis by blast
  qed
qed

lemma fold_processBlock_growth:
  assumes wf: "wf_code code"
  shows "\<forall>j \<in> set js. j < length (blocks code) \<Longrightarrow> sound ad code st \<Longrightarrow>
     sound ad code (fold (processBlock ret ad code) js st) \<and>
     (\<forall>q. set (m_liveAtTail (liveness st) ! q)
           \<subseteq> set (m_liveAtTail (liveness (fold (processBlock ret ad code) js st)) ! q)) \<and>
     (changed (fold (processBlock ret ad code) js st) \<longrightarrow>
        changed st \<or> (\<exists>q < length (blocks code). set (m_liveAtTail (liveness st) ! q)
           \<subset> set (m_liveAtTail (liveness (fold (processBlock ret ad code) js st)) ! q)))"
proof (induction js arbitrary: st)
  case Nil
  then show ?case by simp
next
  case (Cons j js)
  let ?st1 = "processBlock ret ad code j st"
  let ?st2 = "fold (processBlock ret ad code) js ?st1"
  let ?t = "\<lambda>st q. set (m_liveAtTail (liveness st) ! q)"
  from Cons.prems have j: "j < length (blocks code)" by simp
  with wf Cons.prems have s1: "sound ad code ?st1" by (simp add: sound_processBlock)
  from Cons.prems have "\<forall>j \<in> set js. j < length (blocks code)" by simp
  from Cons.IH [OF this s1] have s2: "sound ad code ?st2"
    and g2: "\<And>q. ?t ?st1 q \<subseteq> ?t ?st2 q"
    and c2: "changed ?st2 \<Longrightarrow> changed ?st1 \<or> (\<exists>q < length (blocks code). ?t ?st1 q \<subset> ?t ?st2 q)"
    by blast+
  have g1: "?t st q \<subseteq> ?t ?st1 q" for q
    using wf j Cons.prems(2) by (rule processBlock_grows)
  have "changed st \<or> (\<exists>q < length (blocks code). ?t st q \<subset> ?t ?st2 q)" if "changed ?st2"
  proof -
    from c2 [OF that] show ?thesis
    proof
      assume "changed ?st1"
      with processBlock_changed_strict [OF wf j Cons.prems(2)]
      have "changed st \<or> (\<exists>q < length (blocks code). ?t st q \<subset> ?t ?st1 q)" by blast
      with g2 show ?thesis by blast
    next
      assume "\<exists>q < length (blocks code). ?t ?st1 q \<subset> ?t ?st2 q"
      with g1 show ?thesis by blast
    qed
  qed
  moreover have "?t st q \<subseteq> ?t ?st2 q" for q
    using g1 [of q] g2 [of q] by blast
  ultimately show ?case
    using s2 by simp
qed

lemma sound_pass:
  assumes "wf_code code" and "sound ad code st"
  shows "sound ad code (pass ret ad code st)"
proof -
  from assms(2) have "sound ad code (st\<lparr>changed := False\<rparr>)" by (rule sound_round)
  with fold_processBlock_growth [OF assms(1), of "rev [0..<length (blocks code)]" ad "st\<lparr>changed := False\<rparr>" ret]
  show ?thesis by (simp add: pass_def)
qed

lemma pass_grows:
  assumes "wf_code code" and "sound ad code st"
  shows "set (m_liveAtTail (liveness st) ! q) \<subseteq> set (m_liveAtTail (liveness (pass ret ad code st)) ! q)"
proof -
  from assms(2) have "sound ad code (st\<lparr>changed := False\<rparr>)" by (rule sound_round)
  with fold_processBlock_growth [OF assms(1), of "rev [0..<length (blocks code)]" ad "st\<lparr>changed := False\<rparr>" ret]
  show ?thesis by (simp add: pass_def)
qed

lemma pass_changed_strict:
  assumes "wf_code code" and "sound ad code st" and "changed (pass ret ad code st)"
  shows "\<exists>q < length (blocks code).
     set (m_liveAtTail (liveness st) ! q) \<subset> set (m_liveAtTail (liveness (pass ret ad code st)) ! q)"
proof -
  from assms(2) have "sound ad code (st\<lparr>changed := False\<rparr>)" by (rule sound_round)
  with fold_processBlock_growth [OF assms(1), of "rev [0..<length (blocks code)]" ad "st\<lparr>changed := False\<rparr>" ret]
    assms(3)
  show ?thesis by (simp add: pass_def)
qed

lemma tailTotal_pass:
  assumes "wf_code code" and "sound ad code st"
  shows "tailTotal code st \<le> tailTotal code (pass ret ad code st)"
    and "changed (pass ret ad code st) \<Longrightarrow> tailTotal code st < tailTotal code (pass ret ad code st)"
proof -
  let ?f = "\<lambda>st q. card (set (m_liveAtTail (liveness st) ! q))"
  have le: "?f st q \<le> ?f (pass ret ad code st) q" for q
    using pass_grows [OF assms, of q ret] by (simp add: card_mono)
  then show "tailTotal code st \<le> tailTotal code (pass ret ad code st)"
    unfolding tailTotal_def by (intro sum_mono) simp
  assume "changed (pass ret ad code st)"
  with assms obtain q where q: "q < length (blocks code)"
    and "set (m_liveAtTail (liveness st) ! q) \<subset> set (m_liveAtTail (liveness (pass ret ad code st)) ! q)"
    using pass_changed_strict by blast
  then have "?f st q < ?f (pass ret ad code st) q"
    by (simp add: psubset_card_mono)
  with q le show "tailTotal code st < tailTotal code (pass ret ad code st)"
    unfolding tailTotal_def by (intro sum_strict_mono_ex1) auto
qed

lemma tailTotal_bound:
  assumes "sound ad code st"
  shows "tailTotal code st \<le> length (blocks code) * card (set (entityIndices ad code))"
proof -
  have "card (set (m_liveAtTail (liveness st) ! q)) \<le> card (set (entityIndices ad code))"
    if "q < length (blocks code)" for q
    using assms that by (intro card_mono) (simp_all add: sound_def)
  then have "tailTotal code st \<le> (\<Sum>q < length (blocks code). card (set (entityIndices ad code)))"
    unfolding tailTotal_def by (intro sum_mono) simp
  then show ?thesis by simp
qed

lemma fixedPoint_rounds:
  assumes wf: "wf_code code"
  shows "sound ad code st \<Longrightarrow>
     \<exists>k \<le> length (blocks code) * card (set (entityIndices ad code)) - tailTotal code st.
        fixedPoint ret ad code st = Some ((pass ret ad code ^^ Suc k) st)"
proof (induction "length (blocks code) * card (set (entityIndices ad code)) - tailTotal code st"
        arbitrary: st rule: less_induct)
  case less
  let ?B = "length (blocks code) * card (set (entityIndices ad code))"
  let ?st = "pass ret ad code st"
  from wf less.prems have s: "sound ad code ?st" by (rule sound_pass)
  show ?case
  proof (cases "changed ?st")
    case False
    then have "fixedPoint ret ad code st = Some ((pass ret ad code ^^ Suc 0) st)"
      by (subst fixedPoint.simps) (simp add: Let_def)
    then show ?thesis by blast
  next
    case True
    with wf less.prems have lt: "tailTotal code st < tailTotal code ?st"
      by (rule tailTotal_pass(2))
    from s have b: "tailTotal code ?st \<le> ?B" by (rule tailTotal_bound)
    from lt b have "?B - tailTotal code ?st < ?B - tailTotal code st" by arith
    from less.hyps [OF this s] obtain k where k: "k \<le> ?B - tailTotal code ?st"
      and f: "fixedPoint ret ad code ?st = Some ((pass ret ad code ^^ Suc k) ?st)"
      by blast
    from True f have "fixedPoint ret ad code st = Some ((pass ret ad code ^^ Suc k) ?st)"
      by (subst fixedPoint.simps) (simp add: Let_def)
    also have "(pass ret ad code ^^ Suc k) ?st = (pass ret ad code ^^ Suc (Suc k)) st"
      by (simp only: funpow_Suc_right comp_apply)
    finally have "fixedPoint ret ad code st = Some ((pass ret ad code ^^ Suc (Suc k)) st)" .
    moreover from k lt b have "Suc k \<le> ?B - tailTotal code st" by arith
    ultimately show ?thesis by blast
  qed
qed

section \<open>Termination, as claimed\<close>

lemma card_indices_le:
  fixes m :: unsigned
  assumes "\<forall>v \<in> S. v \<le> m"
  shows "card S \<le> unat m + 1"
proof -
  have "inj_on unat S"
    by (rule inj_onI) (simp add: word_unat_eq_iff)
  then have "card S = card (unat ` S)"
    by (simp add: card_image)
  also have "unat ` S \<subseteq> {0..unat m}"
    using assms by (auto simp: word_le_nat_alt)
  then have "card (unat ` S) \<le> card {0..unat m}"
    by (intro card_mono) simp_all
  finally show ?thesis by simp
qed

lemma funpow_pass_sound:
  assumes "wf_code code" and "sound ad code st"
  shows "sound ad code ((pass ret ad code ^^ k) st) \<and>
         (\<forall>q. set (m_liveAtTail (liveness st) ! q)
               \<subseteq> set (m_liveAtTail (liveness ((pass ret ad code ^^ k) st)) ! q))"
proof (induction k)
  case 0
  from assms(2) show ?case by simp
next
  case (Suc k)
  let ?st = "(pass ret ad code ^^ k) st"
  from Suc have s: "sound ad code ?st" by simp
  with assms(1) have "sound ad code (pass ret ad code ?st)" by (rule sound_pass)
  moreover have "set (m_liveAtTail (liveness st) ! q)
               \<subseteq> set (m_liveAtTail (liveness (pass ret ad code ?st)) ! q)" for q
    using Suc pass_grows [OF assms(1) s, of q ret] by blast
  ultimately show ?case by simp
qed

text \<open>
  C3. On every well-formed code the do/while loop returns, after at most
  \<open>#blocks * #entities + 1\<close> rounds, where the entities are the distinct indices of the
  accepted operands of the code: every tail set only grows, a round that sets \<open>changed\<close>
  has added a value to some tail set, and the tail sets together never hold more than
  \<open>#blocks * #entities\<close> values. When every index is at most \<open>maxIndex(code)\<close>, the
  number of entities is at most \<open>maxIndex(code) + 1\<close>. The constructor therefore returns
  too.
\<close>

theorem fixedPoint_terminates:
  assumes "wf_code code"
  shows "\<exists>k st'. k \<le> length (blocks code) * card (set (entityIndices ad code)) \<and>
           fixedPoint ret ad code (initialState ad code) = Some st' \<and>
           st' = (pass ret ad code ^^ Suc k) (initialState ad code) \<and>
           construct ret ad code = Some ((liveness st')\<lparr>m_liveAtHead := []\<rparr>) \<and>
           (\<forall>q. set (m_liveAtTail (initialLiveness ad code) ! q) \<subseteq> set (m_liveAtTail (liveness st') ! q)) \<and>
           (\<Sum>q < length (blocks code). card (set (m_liveAtTail (liveness st') ! q)))
             \<le> length (blocks code) * card (set (entityIndices ad code)) \<and>
           ((\<forall>v \<in> set (entityIndices ad code). v \<le> maxIndex ad code)
              \<longrightarrow> card (set (entityIndices ad code)) \<le> unat (maxIndex ad code) + 1)"
proof -
  let ?B = "length (blocks code) * card (set (entityIndices ad code))"
  let ?st0 = "initialState ad code"
  from assms have s0: "sound ad code ?st0" by (rule sound_initial)
  from fixedPoint_rounds [OF assms s0, of ret] obtain k
    where k: "k \<le> ?B - tailTotal code ?st0"
      and f: "fixedPoint ret ad code ?st0 = Some ((pass ret ad code ^^ Suc k) ?st0)"
    by blast
  let ?st' = "(pass ret ad code ^^ Suc k) ?st0"
  from funpow_pass_sound [OF assms s0, where ret = ret and k = "Suc k"]
  have s': "sound ad code ?st'"
    and g: "\<And>q. set (m_liveAtTail (liveness ?st0) ! q) \<subseteq> set (m_liveAtTail (liveness ?st') ! q)"
    by blast+
  from k have "k \<le> ?B" by simp
  moreover from f have "construct ret ad code = Some ((liveness ?st')\<lparr>m_liveAtHead := []\<rparr>)"
    by (simp add: construct_def)
  moreover from g have "\<forall>q. set (m_liveAtTail (initialLiveness ad code) ! q)
      \<subseteq> set (m_liveAtTail (liveness ?st') ! q)"
    by simp
  moreover from tailTotal_bound [OF s']
  have "(\<Sum>q < length (blocks code). card (set (m_liveAtTail (liveness ?st') ! q))) \<le> ?B"
    by (simp add: tailTotal_def)
  moreover have "(\<forall>v \<in> set (entityIndices ad code). v \<le> maxIndex ad code)
              \<longrightarrow> card (set (entityIndices ad code)) \<le> unat (maxIndex ad code) + 1"
    using card_indices_le by blast
  ultimately show ?thesis
    using f by blast
qed

theorem fixedPoint_terminates_witness:
  "wf_code chainCode \<and>
   (\<exists>k. k \<le> length (blocks chainCode) * card (set (entityIndices StackSlotLivenessAdapter chainCode)) \<and>
        fixedPoint returnsPrevious StackSlotLivenessAdapter chainCode
          (initialState StackSlotLivenessAdapter chainCode)
        = Some ((pass returnsPrevious StackSlotLivenessAdapter chainCode ^^ Suc k)
                  (initialState StackSlotLivenessAdapter chainCode))) \<and>
   map_option m_liveAtTail (construct returnsPrevious StackSlotLivenessAdapter chainCode)
     = Some [[1, 0], [0]]"
proof -
  have w: "wf_code chainCode" by code_simp
  have c: "map_option m_liveAtTail (construct returnsPrevious StackSlotLivenessAdapter chainCode)
     = Some [[1, 0], [0]]"
    by code_simp
  from fixedPoint_terminates [OF w, of StackSlotLivenessAdapter returnsPrevious] w c
  show ?thesis by blast
qed

section \<open>The bound of the stack-slot adapter\<close>

lemma reachable_maxValue:
  "reachable ret ad code st \<Longrightarrow> maxValue (m_workset (liveness st)) = maxIndex ad code"
  by (induction rule: reachable.induct) (simp_all add: IndexSparseSet_new_def)

lemma fixedPoint_reachable_aux:
  assumes "fixedPoint ret ad code st = Some st'"
  shows "reachable ret ad code st \<longrightarrow> reachable ret ad code st' \<and> \<not> changed st'"
proof (rule fixedPoint.raw_induct
    [where P = "\<lambda>ret ad code st st'. reachable ret ad code st \<longrightarrow> reachable ret ad code st' \<and> \<not> changed st'",
     OF _ assms], goal_cases)
  case (1 fixedPoint' ret ad code st st')
  let ?st = "pass ret ad code st"
  show ?case
  proof
    assume "reachable ret ad code st"
    then have r: "reachable ret ad code ?st" by (rule reachable_pass)
    show "reachable ret ad code st' \<and> \<not> changed st'"
    proof (cases "changed ?st")
      case True
      with 1(2) have "fixedPoint' ret ad code ?st = Some st'" by (simp add: Let_def)
      with 1(1) r show ?thesis by blast
    next
      case False
      with 1(2) have "st' = ?st" by (simp add: Let_def)
      with r False show ?thesis by simp
    qed
  qed
qed

lemma fixedPoint_reachable:
  assumes "fixedPoint ret ad code st = Some st'" and "reachable ret ad code st"
  shows "reachable ret ad code st'" and "\<not> changed st'"
  using fixedPoint_reachable_aux [OF assms(1)] assms(2) by blast+

lemma unat_stackSlot_maxIndex:
  assumes "stackSlots code \<noteq> []" and "length (stackSlots code) < 2 ^ 32"
  shows "unat (maxIndex StackSlotLivenessAdapter code) = length (stackSlots code) - 1"
proof -
  let ?n = "length (stackSlots code)"
  from assms(2) have u: "unat (word_of_nat ?n :: unsigned) = ?n"
    by (simp add: unat_of_nat)
  with assms(1) have "(word_of_nat ?n :: unsigned) \<noteq> 0"
    by (metis length_0_conv unat_0)
  then have "unat (word_of_nat ?n - 1 :: unsigned) = unat (word_of_nat ?n :: unsigned) - 1"
    by (rule unat_minus_one)
  with u show ?thesis
    by (simp add: StackSlotLivenessAdapter_def)
qed

text \<open>
  C10. \<open>StackSlotLivenessAdapter::maxIndex\<close> is \<open>size() - 1\<close> in unsigned arithmetic. For a
  code with at least one stack slot it is the largest valid slot index. For a code with
  no stack slot the subtraction wraps to \<open>2^32 - 1\<close>. Whatever the adapter, the value of
  \<open>maxIndex(code)\<close> is what the workset is constructed with, and the workset of the
  constructed engine still carries it.
\<close>

theorem stackSlot_maxIndex_wraps:
  "(stackSlots code \<noteq> [] \<and> length (stackSlots code) < 2 ^ 32
      \<longrightarrow> unat (maxIndex StackSlotLivenessAdapter code) = length (stackSlots code) - 1) \<and>
   (stackSlots code = []
      \<longrightarrow> maxIndex StackSlotLivenessAdapter code = 0 - 1 \<and>
          unat (maxIndex StackSlotLivenessAdapter code) = 2 ^ 32 - 1) \<and>
   m_workset (initialLiveness ad code') = IndexSparseSet_new (maxIndex ad code') \<and>
   (\<forall>l. construct ret ad code' = Some l \<longrightarrow> maxValue (m_workset l) = maxIndex ad code')"
proof -
  have "maxValue (m_workset l) = maxIndex ad code'" if "construct ret ad code' = Some l" for l
  proof -
    from that obtain st where f: "fixedPoint ret ad code' (initialState ad code') = Some st"
      and l: "l = (liveness st)\<lparr>m_liveAtHead := []\<rparr>"
      by (auto simp: construct_def)
    from f have "reachable ret ad code' st"
      by (rule fixedPoint_reachable) (rule reachable.init)
    then show ?thesis
      by (simp add: l reachable_maxValue)
  qed
  moreover have "stackSlots code = [] \<longrightarrow> maxIndex StackSlotLivenessAdapter code = 0 - 1 \<and>
          unat (maxIndex StackSlotLivenessAdapter code) = 2 ^ 32 - 1"
    by (simp add: StackSlotLivenessAdapter_def unsigned_minus_1_eq_mask mask_eq_exp_minus_1)
  moreover have "stackSlots code \<noteq> [] \<and> length (stackSlots code) < 2 ^ 32
      \<longrightarrow> unat (maxIndex StackSlotLivenessAdapter code) = length (stackSlots code) - 1"
    using unat_stackSlot_maxIndex by blast
  moreover have "m_workset (initialLiveness ad code') = IndexSparseSet_new (maxIndex ad code')"
    by simp
  ultimately show ?thesis
    by blast
qed

theorem stackSlot_maxIndex_wraps_witness:
  "unat (maxIndex StackSlotLivenessAdapter chainCode) = 1 \<and>
   maxIndex StackSlotLivenessAdapter emptyCode = 4294967295 \<and>
   map_option (\<lambda>l. maxValue (m_workset l)) (construct returnsPrevious StackSlotLivenessAdapter emptyCode)
     = Some 4294967295"
proof -
  have a: "stackSlots chainCode \<noteq> [] \<and> length (stackSlots chainCode) < 2 ^ 32"
    by (simp add: chainCode_def)
  have b: "stackSlots emptyCode = []"
    by (simp add: emptyCode_def)
  have c: "length (stackSlots chainCode) - 1 = 1"
    by (simp add: chainCode_def)
  have d: "construct returnsPrevious StackSlotLivenessAdapter emptyCode \<noteq> None"
    by code_simp
  from stackSlot_maxIndex_wraps [of chainCode StackSlotLivenessAdapter emptyCode returnsPrevious] a c
  have 1: "unat (maxIndex StackSlotLivenessAdapter chainCode) = 1" by simp
  from stackSlot_maxIndex_wraps [of emptyCode StackSlotLivenessAdapter emptyCode returnsPrevious] b
  have 2: "maxIndex StackSlotLivenessAdapter emptyCode = 4294967295"
    and 3: "\<forall>l. construct returnsPrevious StackSlotLivenessAdapter emptyCode = Some l
          \<longrightarrow> maxValue (m_workset l) = maxIndex StackSlotLivenessAdapter emptyCode"
    by simp_all
  from d 2 3 have "map_option (\<lambda>l. maxValue (m_workset l))
      (construct returnsPrevious StackSlotLivenessAdapter emptyCode) = Some 4294967295"
    by auto
  with 1 2 show ?thesis by simp
qed

section \<open>The fixed point\<close>

text \<open>
  C1. The property: once the constructor has returned, \<open>liveAtTail[b]\<close> of every block
  \<open>b\<close> is the set of the accepted late uses of the last instruction of \<open>b\<close> united with
  what the local scan of every successor of \<open>b\<close> finds live before its first instruction
  from the final tail sets. The code as written misses it on \<open>reverseCode\<close>,
  straight-line code laid out against its control flow: block 0 defines slot 0 and jumps
  to block 2, block 2 jumps to block 1, block 1 uses slot 0. With \<open>quickSet\<close> returning the bit before the call, the only
  round processes block 2 (nothing live), then block 1, which adds slot 0 to
  \<open>liveAtTail[block 2]\<close> and sets the dirty bit of block 2; that bit was clear, so
  \<open>quickSet\<close> returns false and \<open>changed\<close> stays false. The loop ends with block 2
  dirty: \<open>liveAtTail[block 0]\<close> is empty, although block 0 has no late use, its only
  successor is block 2 and the scan of block 2 from the final tail sets finds slot 0
  live before its first instruction.
\<close>

theorem fixed_point_missed_with_returnsPrevious:
  "wf_code reverseCode \<and>
   construct returnsPrevious StackSlotLivenessAdapter reverseCode = Some reverseResult \<and>
   liveAtTail reverseResult reverseBlock0 = {} \<and>
   acceptedIndices isLateUse StackSlotLivenessAdapter (last (insts reverseBlock0)) = [] \<and>
   successors reverseCode reverseBlock0 = [reverseBlock2] \<and>
   live (localScan StackSlotLivenessAdapter reverseResult reverseBlock2) = [0]"
proof -
  have "wf_code reverseCode" by code_simp
  moreover have "construct returnsPrevious StackSlotLivenessAdapter reverseCode = Some reverseResult"
    by code_simp
  moreover have "liveAtTail reverseResult reverseBlock0 = {}"
    by (simp add: liveAtTail_def reverseResult_def reverseBlock0_def)
  moreover have "acceptedIndices isLateUse StackSlotLivenessAdapter (last (insts reverseBlock0)) = []"
    by (simp add: acceptedIndices_def reverseBlock0_def)
  moreover have "successors reverseCode reverseBlock0 = [reverseBlock2]"
    by (simp add: successors_def reverseCode_def reverseBlock0_def reverseBlock1_def reverseBlock2_def)
  moreover have "live (localScan StackSlotLivenessAdapter reverseResult reverseBlock2) = [0]"
    by code_simp
  ultimately show ?thesis by blast
qed

section \<open>The adapters\<close>









section \<open>When the result of quickSet reports a newly set bit\<close>

lemma addNewValue_known:
  "v \<in> set (m_liveAtTail (liveness st) ! p) \<Longrightarrow> addNewValue ret p v st = st"
  by (simp add: addNewValue_def HashSet_add_def)

lemma fold_addNewValue_reports:
  assumes "ret False"
  shows "\<not> dirtyBlocks st ! p \<Longrightarrow> \<not> set vs \<subseteq> set (m_liveAtTail (liveness st) ! p) \<Longrightarrow>
         changed (fold (addNewValue ret p) vs st)"
proof (induction vs arbitrary: st)
  case Nil
  then show ?case by simp
next
  case (Cons v vs)
  show ?case
  proof (cases "v \<in> set (m_liveAtTail (liveness st) ! p)")
    case True
    with Cons.prems have "\<not> set vs \<subseteq> set (m_liveAtTail (liveness st) ! p)" by simp
    with Cons.prems(1) have "changed (fold (addNewValue ret p) vs st)" by (rule Cons.IH)
    with True show ?thesis by (simp add: addNewValue_known)
  next
    case False
    with Cons.prems(1) assms have "changed (addNewValue ret p v st)"
      by (simp add: addNewValue_changed)
    then show ?thesis by (simp add: fold_addNewValue_changed_mono)
  qed
qed

lemma propagate_reports:
  assumes "ret False"
  shows "q \<in> set ps \<Longrightarrow> \<not> dirtyBlocks st ! q \<Longrightarrow>
         \<not> set (m_values (m_workset (liveness st))) \<subseteq> set (m_liveAtTail (liveness st) ! q) \<Longrightarrow>
         changed (propagate ret ps st)"
proof (induction ps arbitrary: st)
  case Nil
  then show ?case by simp
next
  case (Cons p ps)
  let ?st = "fold (addNewValue ret p) (m_values (m_workset (liveness st))) st"
  show ?case
  proof (cases "q = p")
    case True
    with Cons.prems have "changed ?st"
      by (intro fold_addNewValue_reports [where ret = ret, OF assms]) simp_all
    then show ?thesis by (simp add: propagate_Cons propagate_changed_mono)
  next
    case False
    with Cons.prems have "q \<in> set ps" by simp
    moreover from False Cons.prems have "\<not> dirtyBlocks ?st ! q"
      by (simp add: fold_addNewValue_other)
    moreover from False Cons.prems
    have "\<not> set (m_values (m_workset (liveness ?st))) \<subseteq> set (m_liveAtTail (liveness ?st) ! q)"
      by (simp add: fold_addNewValue_other)
    ultimately have "changed (propagate ret ps ?st)" by (rule Cons.IH)
    then show ?thesis by (simp add: propagate_Cons)
  qed
qed

lemma processBlock_reports:
  assumes "ret False" and "blocks code ! i = Some b" and "dirtyBlocks st ! i"
    and "i < length (dirtyBlocks st)"
    and "q \<in> set (predecessors b)" and "q = i \<or> \<not> dirtyBlocks st ! q"
    and "\<not> set (newValues ad (liveness st) b) \<subseteq> set (m_liveAtTail (liveness st) ! q)"
  shows "changed (processBlock ret ad code i st)"
proof -
  let ?st = "beforePropagation ad b i st"
  from assms(7) have ne: "newValues ad (liveness st) b \<noteq> []" by auto
  with assms(2,3) have e: "processBlock ret ad code i st = propagate ret (predecessors b) ?st"
    by (simp add: processBlock_dirty)
  from assms(4,6) have "\<not> dirtyBlocks ?st ! q"
    by (cases "q = i") simp_all
  moreover from assms(7)
  have "\<not> set (m_values (m_workset (liveness ?st))) \<subseteq> set (m_liveAtTail (liveness ?st) ! q)"
    by simp
  ultimately show ?thesis
    unfolding e using assms(5) by (intro propagate_reports [where ret = ret, OF assms(1)])
qed

lemma successorSlots_iff:
  "s \<in> set (successorSlots code p) \<longleftrightarrow>
     s < length (blocks code) \<and> (\<exists>b. blocks code ! s = Some b \<and> p \<in> set (predecessors b))"
  by (auto simp: successorSlots_def split: option.splits)

lemma balanced_initial:
  assumes "wf_code code"
  shows "balanced ad code (initialState ad code)"
  using assms by (simp add: balanced_def initial_tails successorSlots_iff)

lemma settled_initial: "settled ad code (initialState ad code)"
  by (simp add: settled_def)

lemma balanced_round: "balanced ad code st \<Longrightarrow> balanced ad code (st\<lparr>changed := False\<rparr>)"
  by (simp add: balanced_def)

lemma settled_round: "settled ad code st \<Longrightarrow> settled ad code (st\<lparr>changed := False\<rparr>)"
  by (simp add: settled_def)

lemma balanced_processBlock:
  assumes wf: "wf_code code" and i: "i < length (blocks code)" and s: "sound ad code st"
    and bal: "balanced ad code st"
  shows "balanced ad code (processBlock ret ad code i st)"
proof (cases "blocks code ! i")
  case None
  with bal show ?thesis by (simp add: processBlock_None)
next
  case (Some b)
  show ?thesis
  proof (cases "dirtyBlocks st ! i")
    case False
    with Some bal show ?thesis by (simp add: processBlock_clean)
  next
    case True
    let ?n = "length (blocks code)"
    let ?l = "liveness st"
    let ?l' = "liveness (processBlock ret ad code i st)"
    let ?N = "newValues ad ?l b"
    from wf i Some have ib: "index b = i" by (rule wf_codeD(1))
    from s have sh: "length (m_liveAtTail ?l) = ?n" "length (m_liveAtHead ?l) = ?n"
      by (simp_all add: sound_def shape_def)
    from wf i Some sh have preds: "\<forall>p \<in> set (predecessors b). p < length (m_liveAtTail ?l)"
      by (simp add: wf_codeD(3))
    have T: "set (m_liveAtTail ?l' ! p) = set (m_liveAtTail ?l ! p) \<union>
         (if p \<in> set (predecessors b) then set ?N else {})" for p
      using processBlock_tails [OF Some preds, of ret ad p] True by simp
    have Hd: "set (m_liveAtHead ?l' ! q) = set (m_liveAtHead ?l ! q) \<union> (if q = i then set ?N else {})"
      if "q < ?n" for q
      using processBlock_heads [OF Some, of ret ad st] True that sh by (simp add: ib nth_list_update)
    have "set (m_liveAtTail ?l' ! p) =
          set (seedOf ad code p) \<union> (\<Union>q \<in> set (successorSlots code p). set (m_liveAtHead ?l' ! q))"
      if p: "p < ?n" for p
    proof -
      have "(\<Union>q \<in> set (successorSlots code p). set (m_liveAtHead ?l' ! q))
          = (\<Union>q \<in> set (successorSlots code p). set (m_liveAtHead ?l ! q) \<union> (if q = i then set ?N else {}))"
        by (intro SUP_cong refl Hd) (simp add: successorSlots_iff)
      also have "\<dots> = (\<Union>q \<in> set (successorSlots code p). set (m_liveAtHead ?l ! q))
          \<union> (if i \<in> set (successorSlots code p) then set ?N else {})"
        by (auto split: if_splits)
      also have "i \<in> set (successorSlots code p) \<longleftrightarrow> p \<in> set (predecessors b)"
        using i Some by (simp add: successorSlots_iff)
      finally show ?thesis
        using bal p unfolding T by (auto simp: balanced_def)
    qed
    then show ?thesis
      by (simp add: balanced_def)
  qed
qed

lemma settled_processBlock:
  assumes wf: "wf_code code" and i: "i < length (blocks code)" and s: "sound ad code st"
    and set: "settled ad code st"
  shows "settled ad code (processBlock ret ad code i st)"
proof (cases "blocks code ! i")
  case None
  with set show ?thesis by (simp add: processBlock_None)
next
  case (Some b)
  show ?thesis
  proof (cases "dirtyBlocks st ! i")
    case False
    with Some set show ?thesis by (simp add: processBlock_clean)
  next
    case True
    let ?n = "length (blocks code)"
    let ?st' = "processBlock ret ad code i st"
    let ?l = "liveness st"
    let ?l' = "liveness ?st'"
    let ?N = "newValues ad ?l b"
    from wf i Some have ib: "index b = i" by (rule wf_codeD(1))
    from s have sh: "length (m_liveAtTail ?l) = ?n" "length (m_liveAtHead ?l) = ?n"
      "length (dirtyBlocks st) = ?n"
      by (simp_all add: sound_def shape_def)
    from wf i Some sh have preds: "\<forall>p \<in> set (predecessors b).
        p < length (m_liveAtTail ?l) \<and> p < length (dirtyBlocks st)"
      by (simp add: wf_codeD(3))
    then have preds': "\<forall>p \<in> set (predecessors b). p < length (m_liveAtTail ?l)" by simp
    from i sh have i': "i < length (dirtyBlocks st)" by simp
    have T: "set (m_liveAtTail ?l' ! p) = set (m_liveAtTail ?l ! p) \<union>
         (if p \<in> set (predecessors b) then set ?N else {})" for p
      using processBlock_tails [OF Some preds', of ret ad p] True by simp
    have Hd: "set (m_liveAtHead ?l' ! q) = set (m_liveAtHead ?l ! q) \<union> (if q = i then set ?N else {})"
      if "q < ?n" for q
      using processBlock_heads [OF Some, of ret ad st] True that sh by (simp add: ib nth_list_update)
    have D: "dirtyBlocks ?st' ! q = ((q \<noteq> i \<and> dirtyBlocks st ! q) \<or>
           (q \<in> set (predecessors b) \<and> \<not> set ?N \<subseteq> set (m_liveAtTail ?l ! q)))" for q
      using processBlock_dirtyBits [OF Some preds i', of ret ad q] True by simp
    have scan: "set (live (localScan ad m c)) = headLive ad c (set (m_liveAtTail m ! index c))" for m c
      by (rule set_live_localScan)
    from s i Some have "distinct (m_liveAtHead ?l ! index b)"
      and "set (m_liveAtHead ?l ! index b) \<subseteq> set (live (localScan ad ?l b))"
      by (simp_all add: sound_def ib)
    then have N: "set ?N = set (live (localScan ad ?l b)) - set (m_liveAtHead ?l ! index b)"
      and sub: "set (m_liveAtHead ?l ! index b) \<subseteq> set (live (localScan ad ?l b))"
      by (simp_all add: set_newValues)
    have "set (m_liveAtHead ?l' ! q) = set (live (localScan ad ?l' c))"
      if q: "q < ?n" and c: "blocks code ! q = Some c" and clean: "\<not> dirtyBlocks ?st' ! q" for q c
    proof -
      from wf q c have ic: "index c = q" by (rule wf_codeD(1))
      from clean have same: "set (m_liveAtTail ?l' ! q) = set (m_liveAtTail ?l ! q)"
        unfolding D T by auto
      then have sc: "set (live (localScan ad ?l' c)) = set (live (localScan ad ?l c))"
        unfolding scan ic by simp
      show ?thesis
      proof (cases "q = i")
        case True
        with c Some have "c = b" by simp
        with True q N sub show ?thesis
          unfolding sc Hd [OF q] by (auto simp: ib)
      next
        case False
        with clean have "\<not> dirtyBlocks st ! q" unfolding D by simp
        with set q c have "set (m_liveAtHead ?l ! q) = set (live (localScan ad ?l c))"
          by (simp add: settled_def)
        with False show ?thesis
          unfolding sc Hd [OF q] by simp
      qed
    qed
    then show ?thesis
      by (simp add: settled_def)
  qed
qed

lemma reachable_balanced_settled:
  assumes "wf_code code" and "reachable ret ad code st"
  shows "balanced ad code st \<and> settled ad code st"
  using assms(2)
proof (induction rule: reachable.induct)
  case init
  from assms(1) show ?case by (simp add: balanced_initial settled_initial)
next
  case (round st)
  then show ?case by (simp add: balanced_round settled_round)
next
  case (block st i)
  from assms(1) block(1) have "sound ad code st" by (rule reachable_sound)
  with assms(1) block show ?case
    by (simp add: balanced_processBlock settled_processBlock)
qed

lemma processBlock_cleanFrom:
  assumes r: "ret False" and wf: "wf_code code" and k: "k < length (blocks code)"
    and s: "sound ad code st" and pre: "changed st \<or> cleanFrom code (Suc k) st"
  shows "changed (processBlock ret ad code k st) \<or> cleanFrom code k (processBlock ret ad code k st)"
proof (cases "changed st")
  case True
  then show ?thesis by (simp add: processBlock_changed_mono)
next
  case False
  with pre have cf: "cleanFrom code (Suc k) st" by simp
  show ?thesis
  proof (cases "blocks code ! k")
    case None
    with cf have "cleanFrom code k st"
      unfolding cleanFrom_def by (metis le_antisym not_less_eq_eq)
    with None show ?thesis by (simp add: processBlock_None)
  next
    case (Some b)
    show ?thesis
    proof (cases "dirtyBlocks st ! k")
      case False
      with cf have "cleanFrom code k st"
        unfolding cleanFrom_def by (metis le_antisym not_less_eq_eq)
      with Some False show ?thesis by (simp add: processBlock_clean)
    next
      case True
      let ?n = "length (blocks code)"
      let ?st' = "processBlock ret ad code k st"
      let ?N = "newValues ad (liveness st) b"
      from s have sh: "length (m_liveAtTail (liveness st)) = ?n" "length (dirtyBlocks st) = ?n"
        by (simp_all add: sound_def shape_def)
      from wf k Some sh have preds: "\<forall>p \<in> set (predecessors b).
          p < length (m_liveAtTail (liveness st)) \<and> p < length (dirtyBlocks st)"
        by (simp add: wf_codeD(3))
      from k sh have k': "k < length (dirtyBlocks st)" by simp
      have D: "dirtyBlocks ?st' ! q = ((q \<noteq> k \<and> dirtyBlocks st ! q) \<or>
           (q \<in> set (predecessors b) \<and> \<not> set ?N \<subseteq> set (m_liveAtTail (liveness st) ! q)))" for q
        using processBlock_dirtyBits [OF Some preds k', of ret ad q] True by simp
      show ?thesis
      proof (cases "changed ?st'")
        case True
        then show ?thesis ..
      next
        case nc: False
        have "\<not> dirtyBlocks ?st' ! q" if q: "q < ?n" "k \<le> q" "blocks code ! q \<noteq> None" for q
        proof
          assume d: "dirtyBlocks ?st' ! q"
          have old: "q = k \<or> \<not> dirtyBlocks st ! q"
          proof (cases "q = k")
            case True
            then show ?thesis ..
          next
            case False
            with q have "Suc k \<le> q" by simp
            with cf q show ?thesis by (simp add: cleanFrom_def)
          qed
          with d have "q \<in> set (predecessors b)"
            and "\<not> set ?N \<subseteq> set (m_liveAtTail (liveness st) ! q)"
            unfolding D by auto
          with r Some True k' old have "changed ?st'"
            by (intro processBlock_reports [where ret = ret and b = b and q = q]) simp_all
          with nc show False ..
        qed
        then show ?thesis
          by (simp add: cleanFrom_def)
      qed
    qed
  qed
qed

lemma fold_cleanFrom:
  assumes r: "ret False" and wf: "wf_code code" and s: "sound ad code st"
  shows "j \<le> length (blocks code) \<Longrightarrow>
     changed (fold (processBlock ret ad code) (rev [length (blocks code) - j..<length (blocks code)]) st) \<or>
     cleanFrom code (length (blocks code) - j)
       (fold (processBlock ret ad code) (rev [length (blocks code) - j..<length (blocks code)]) st)"
proof (induction j)
  case 0
  show ?case by (simp add: cleanFrom_def)
next
  case (Suc j)
  let ?n = "length (blocks code)"
  let ?k = "?n - Suc j"
  let ?st = "fold (processBlock ret ad code) (rev [?n - j..<?n]) st"
  from Suc.prems have k: "?k < ?n" and sk: "Suc ?k = ?n - j" by simp_all
  then have "[?k..<?n] = ?k # [?n - j..<?n]"
    by (simp add: upt_conv_Cons)
  then have e: "fold (processBlock ret ad code) (rev [?k..<?n]) st = processBlock ret ad code ?k ?st"
    by simp
  have "sound ad code ?st"
    using fold_processBlock_growth [OF wf, of "rev [?n - j..<?n]" ad st ret] s by simp
  moreover from Suc have "changed ?st \<or> cleanFrom code (Suc ?k) ?st"
    by (simp add: sk)
  ultimately show ?case
    unfolding e using r wf k by (intro processBlock_cleanFrom [where ret = ret])
qed

lemma pass_clean:
  assumes "ret False" and "wf_code code" and "sound ad code st" and "\<not> changed (pass ret ad code st)"
  shows "cleanFrom code 0 (pass ret ad code st)"
proof -
  from assms(3) have "sound ad code (st\<lparr>changed := False\<rparr>)" by (rule sound_round)
  from fold_cleanFrom [where ret = ret and j = "length (blocks code)", OF assms(1,2) this] assms(4)
  show ?thesis by (simp add: pass_def)
qed

lemma reachable_funpow_pass:
  "reachable ret ad code st \<Longrightarrow> reachable ret ad code ((pass ret ad code ^^ k) st)"
  by (induction k) (simp_all add: reachable_pass)

lemma set_successors:
  "set (successors code b) =
     {s. \<exists>q < length (blocks code). blocks code ! q = Some s \<and> index b \<in> set (predecessors s)}"
proof -
  have "set (successors code b) = {s. Some s \<in> set (blocks code) \<and> index b \<in> set (predecessors s)}"
    unfolding successors_def by (auto split: option.splits if_splits)
  then show ?thesis
    by (auto simp: in_set_conv_nth)
qed

section \<open>The fixed point, with new bits reported\<close>

text \<open>
  The fixed point that the loop is written to reach. If the result of \<open>quickSet\<close> is true
  whenever the bit was clear before the call (the reading \<open>returnsChanged\<close>, or the test
  of the source with a negation under \<open>returnsPrevious\<close>), the loop ends with no block
  dirty, and for every block \<open>b\<close> the final \<open>liveAtTail[b]\<close> is the set of the accepted late
  uses of the last instruction of \<open>b\<close> united with what the local scan of every successor
  of \<open>b\<close> finds live before its first instruction, from the final tail sets.
\<close>

theorem fixed_point_when_new_bits_are_reported:
  assumes r: "ret False" and wf: "wf_code code" and c: "construct ret ad code = Some l"
    and i: "i < length (blocks code)" and b: "blocks code ! i = Some b"
  shows "liveAtTail l b = set (acceptedIndices isLateUse ad (last (insts b))) \<union>
           (\<Union>s \<in> set (successors code b). set (live (localScan ad l s)))"
proof -
  let ?n = "length (blocks code)"
  let ?init = "initialState ad code"
  from wf have s0: "sound ad code ?init" by (rule sound_initial)
  from fixedPoint_rounds [OF wf s0, of ret] obtain k
    where f: "fixedPoint ret ad code ?init = Some ((pass ret ad code ^^ Suc k) ?init)"
    by blast
  let ?st1 = "(pass ret ad code ^^ k) ?init"
  let ?st = "pass ret ad code ?st1"
  have e: "(pass ret ad code ^^ Suc k) ?init = ?st" by simp
  have r1: "reachable ret ad code ?st1"
    by (intro reachable_funpow_pass reachable.init)
  with wf have s1: "sound ad code ?st1" by (rule reachable_sound)
  from r1 have rs: "reachable ret ad code ?st" by (rule reachable_pass)
  from f have "\<not> changed ((pass ret ad code ^^ Suc k) ?init)"
    by (rule fixedPoint_reachable(2)) (rule reachable.init)
  then have nc: "\<not> changed ?st" by simp
  from r wf s1 nc have clean: "cleanFrom code 0 ?st" by (rule pass_clean)
  from wf rs have bal: "balanced ad code ?st" and set: "settled ad code ?st"
    using reachable_balanced_settled by blast+
  from c f have l: "l = (liveness ?st)\<lparr>m_liveAtHead := []\<rparr>"
    by (simp add: construct_def)
  from wf i b have ib: "index b = i" by (rule wf_codeD(1))
  have heads: "set (m_liveAtHead (liveness ?st) ! q) = set (live (localScan ad l s))"
    if q: "q < ?n" and s: "blocks code ! q = Some s" for q s
  proof -
    from clean q s have "\<not> dirtyBlocks ?st ! q"
      by (simp add: cleanFrom_def)
    with set q s have "set (m_liveAtHead (liveness ?st) ! q) = set (live (localScan ad (liveness ?st) s))"
      by (simp add: settled_def)
    also have "live (localScan ad (liveness ?st) s) = live (localScan ad l s)"
      by (rule live_localScan_cong) (simp_all add: l)
    finally show ?thesis .
  qed
  have "(\<Union>q \<in> set (successorSlots code i). set (m_liveAtHead (liveness ?st) ! q))
      = (\<Union>s \<in> set (successors code b). set (live (localScan ad l s)))"
  proof (intro equalityI subsetI)
    fix v
    assume "v \<in> (\<Union>q \<in> set (successorSlots code i). set (m_liveAtHead (liveness ?st) ! q))"
    then obtain q s where q: "q < ?n" "blocks code ! q = Some s" "i \<in> set (predecessors s)"
      and v: "v \<in> set (m_liveAtHead (liveness ?st) ! q)"
      by (auto simp: successorSlots_iff)
    from q have "s \<in> set (successors code b)"
      unfolding set_successors ib by blast
    moreover from v heads [OF q(1,2)] have "v \<in> set (live (localScan ad l s))" by simp
    ultimately show "v \<in> (\<Union>s \<in> set (successors code b). set (live (localScan ad l s)))"
      by blast
  next
    fix v
    assume "v \<in> (\<Union>s \<in> set (successors code b). set (live (localScan ad l s)))"
    then obtain s where s: "s \<in> set (successors code b)" and v: "v \<in> set (live (localScan ad l s))"
      by blast
    from s obtain q where q: "q < ?n" "blocks code ! q = Some s" "i \<in> set (predecessors s)"
      unfolding set_successors ib by blast
    then have "q \<in> set (successorSlots code i)"
      by (simp add: successorSlots_iff)
    moreover from v heads [OF q(1,2)] have "v \<in> set (m_liveAtHead (liveness ?st) ! q)" by simp
    ultimately show "v \<in> (\<Union>q \<in> set (successorSlots code i). set (m_liveAtHead (liveness ?st) ! q))"
      by blast
  qed
  moreover from bal i have "set (m_liveAtTail (liveness ?st) ! i) =
      set (seedOf ad code i) \<union> (\<Union>q \<in> set (successorSlots code i). set (m_liveAtHead (liveness ?st) ! q))"
    by (simp add: balanced_def)
  moreover from b have "set (seedOf ad code i) = set (acceptedIndices isLateUse ad (last (insts b)))"
    by (rule set_seedOf)
  moreover have "liveAtTail l b = set (m_liveAtTail (liveness ?st) ! i)"
    by (simp add: liveAtTail_def l ib)
  ultimately show ?thesis by simp
qed

lemma fixed_point_on_reverseCode_with_returnsChanged:
  "map_option m_liveAtTail (construct returnsChanged StackSlotLivenessAdapter reverseCode)
     = Some [[0], [], [0]]"
  by code_simp

end
